theory Spec2Isabelle
  imports Main "HOL-Library.Word"
begin

section \<open>Data model of package event (event/event.go)\<close>

type_synonym uint64 = "64 word"
type_synonym int64 = "64 word"

text \<open>
  A \<open>HandlerFunc\<close> is a Go function value \<open>func(context.Context, any)\<close>. The bus never
  inspects it; it only stores it and calls it. It is kept opaque (type \<open>'h\<close>); how a call
  of it ends (it returns, or it panics) is decided by the schedule, see \<open>action\<close> below.
  The payload type \<open>any\<close> is the type parameter \<open>'m\<close>.
\<close>

record 'h Subscription =
  ID :: uint64
  Topic :: string
  CreatedAt :: int64
  Fn :: 'h

record 'm event =
  topic :: string
  message :: 'm

text \<open>A buffered Go channel: the buffered items (oldest first), its capacity, and whether
  it has been closed.\<close>

record 'a chan =
  buf :: "'a list"
  cap :: nat
  is_closed :: bool

text \<open>\<open>sync.Once\<close>: not yet used, its function running, its function done.\<close>

datatype once = Fresh | Running | Finished

text \<open>
  The struct \<open>eventStream\<close>. The mutex \<open>mu\<close> has no field: every critical section it
  guards is one atomic step of the model. \<open>ctx\<close>/\<open>cancel\<close> are the flag \<open>ctx_done\<close>;
  \<open>wg\<close> is the WaitGroup counter.
\<close>

record ('h, 'm) eventStream =
  subs :: "string \<rightharpoonup> 'h Subscription list"
  eventch :: "'m event chan"
  ctx_done :: bool
  wg :: nat
  stopOnce :: once
  closed :: bool

datatype panic =
    NilPointer          \<comment> \<open>method call through the nil \<open>stream\<close>\<close>
  | SendOnClosed        \<comment> \<open>send on closed channel\<close>
  | CloseOfClosed       \<comment> \<open>close of closed channel\<close>
  | NegativeCounter     \<comment> \<open>sync: negative WaitGroup counter\<close>
  | HandlerFault        \<comment> \<open>a panic raised inside a handler\<close>

datatype level = LevelDebug | LevelWarn

type_synonym log_entry = "level \<times> string \<times> string"

section \<open>Go runtime primitives used by the bus\<close>

definition make_chan :: "nat \<Rightarrow> 'a chan" where
  "make_chan n = \<lparr>buf = [], cap = n, is_closed = False\<rparr>"

datatype 'a send_result = Sent "'a chan" | SendWouldBlock | SendPanics

definition chan_send :: "'a chan \<Rightarrow> 'a \<Rightarrow> 'a send_result" where
  "chan_send ch x =
     (if is_closed ch then SendPanics
      else if length (buf ch) < cap ch then Sent (ch\<lparr>buf := buf ch @ [x]\<rparr>)
      else SendWouldBlock)"

datatype 'a recv_result = Received 'a "'a chan" | RecvClosed | RecvWouldBlock

definition chan_recv :: "'a chan \<Rightarrow> 'a recv_result" where
  "chan_recv ch =
     (case buf ch of
        x # xs \<Rightarrow> Received x (ch\<lparr>buf := xs\<rparr>)
      | [] \<Rightarrow> if is_closed ch then RecvClosed else RecvWouldBlock)"

definition chan_close :: "'a chan \<Rightarrow> panic + 'a chan" where
  "chan_close ch = (if is_closed ch then Inl CloseOfClosed else Inr (ch\<lparr>is_closed := True\<rparr>))"

text \<open>\<open>m[k]\<close> on a Go map of slices: the nil (empty) slice when the key is absent.\<close>

definition index_map :: "('k \<rightharpoonup> 'a list) \<Rightarrow> 'k \<Rightarrow> 'a list" where
  "index_map m k = (case m k of None \<Rightarrow> [] | Some xs \<Rightarrow> xs)"

text \<open>\<open>slices.DeleteFunc(s, del)\<close>: the elements for which \<open>del\<close> is false, in order.\<close>

definition DeleteFunc :: "'a list \<Rightarrow> ('a \<Rightarrow> bool) \<Rightarrow> 'a list" where
  "DeleteFunc s del = filter (\<lambda>x. \<not> del x) s"

text \<open>\<open>wg.Done()\<close>: panics when the counter would become negative.\<close>

definition wg_Done :: "nat \<Rightarrow> panic + nat" where
  "wg_Done n = (if n = 0 then Inl NegativeCounter else Inr (n - 1))"

section \<open>Methods of eventStream\<close>

definition newStream :: "('h, 'm) eventStream" where
  "newStream =
     \<lparr>subs = Map.empty, eventch = make_chan 128, ctx_done = False, wg = 0,
      stopOnce = Fresh, closed = False\<rparr>"

text \<open>
  \<open>subscribe\<close>, under the write lock. \<open>ctr\<close> is the global \<open>subIDCounter\<close> before the
  call and \<open>now\<close> is what \<open>time.Now().UnixNano()\<close> returns; the result is the returned
  Subscription, the stream and the counter after the call.
\<close>

definition subscribe ::
  "('h, 'm) eventStream \<Rightarrow> uint64 \<Rightarrow> int64 \<Rightarrow> string \<Rightarrow> 'h
     \<Rightarrow> 'h Subscription \<times> ('h, 'm) eventStream \<times> uint64" where
  "subscribe e ctr now tp h =
     (let ctr' = ctr + 1;
          sub = \<lparr>ID = ctr', Topic = tp, CreatedAt = now, Fn = h\<rparr>
      in (sub, e\<lparr>subs := (subs e)(tp \<mapsto> index_map (subs e) tp @ [sub])\<rparr>, ctr'))"

definition unsubscribe :: "('h, 'm) eventStream \<Rightarrow> 'h Subscription \<Rightarrow> ('h, 'm) eventStream" where
  "unsubscribe e sub =
     (case subs e (Topic sub) of
        None \<Rightarrow> e
      | Some xs \<Rightarrow>
          (let e1 = e\<lparr>subs := (subs e)(Topic sub \<mapsto> DeleteFunc xs (\<lambda>s. ID s = ID sub))\<rparr>
           in if length (index_map (subs e1) (Topic sub)) = 0
              then e1\<lparr>subs := (subs e1)(Topic sub := None)\<rparr>
              else e1))"

text \<open>
  \<open>emit\<close> in its two steps: the load of \<open>closed\<close>, and the \<open>select\<close> with a default
  branch. Each returns the stream and the log lines written, or the panic.
\<close>

definition emit_select ::
  "('h, 'm) eventStream \<Rightarrow> 'm event \<Rightarrow> panic + (('h, 'm) eventStream \<times> log_entry list)" where
  "emit_select e evt =
     (case chan_send (eventch e) evt of
        Sent ch \<Rightarrow> Inr (e\<lparr>eventch := ch\<rparr>, [])
      | SendWouldBlock \<Rightarrow> Inr (e, [(LevelWarn, ''event channel full; dropping event'', topic evt)])
      | SendPanics \<Rightarrow> Inl SendOnClosed)"

definition emit ::
  "('h, 'm) eventStream \<Rightarrow> string \<Rightarrow> 'm \<Rightarrow> panic + (('h, 'm) eventStream \<times> log_entry list)" where
  "emit e tp v =
     (if closed e
      then Inr (e, [(LevelDebug, ''dropping event because stream is closed'', tp)])
      else emit_select e \<lparr>topic = tp, message = v\<rparr>)"

text \<open>The statements of the function passed to \<open>stopOnce.Do\<close>, one definition each.\<close>

definition stop_store :: "('h, 'm) eventStream \<Rightarrow> ('h, 'm) eventStream" where
  "stop_store e = e\<lparr>closed := True\<rparr>"

definition stop_cancel :: "('h, 'm) eventStream \<Rightarrow> ('h, 'm) eventStream" where
  "stop_cancel e = e\<lparr>ctx_done := True\<rparr>"

definition stop_close :: "('h, 'm) eventStream \<Rightarrow> panic + ('h, 'm) eventStream" where
  "stop_close e =
     (case chan_close (eventch e) of Inl pn \<Rightarrow> Inl pn | Inr ch \<Rightarrow> Inr (e\<lparr>eventch := ch\<rparr>))"

text \<open>\<open>wg.Wait()\<close> returns only when the counter is zero; \<open>None\<close> is "still blocked".\<close>

definition stop_wait :: "('h, 'm) eventStream \<Rightarrow> ('h, 'm) eventStream option" where
  "stop_wait e = (if wg e = 0 then Some e else None)"

definition stop_clear :: "('h, 'm) eventStream \<Rightarrow> ('h, 'm) eventStream" where
  "stop_clear e = e\<lparr>subs := Map.empty\<rparr>"

text \<open>The snapshot of \<open>start\<close>: \<open>append([]Subscription(nil), e.subs[evt.topic]...)\<close>.\<close>

definition snapshot :: "('h, 'm) eventStream \<Rightarrow> string \<Rightarrow> 'h Subscription list" where
  "snapshot e tp = [] @ index_map (subs e) tp"

section \<open>The process: globals, goroutines and their interleaving\<close>

text \<open>
  Where the goroutine running \<open>start\<close> stands: at the \<open>select\<close>, holding a received
  event before the snapshot, inside the \<open>for range handlers\<close> loop with the handlers still
  to be started and the message, or returned.
\<close>

datatype ('h, 'm) loop_pc =
    NotStarted
  | AtSelect
  | AtSnapshot "'m event"
  | AtSpawn "'h Subscription list" 'm
  | Exited

text \<open>Where a caller of \<open>Stop\<close> stands.\<close>

datatype stop_pc =
    Idle | AtStore | AtCancel | AtClose | AtWait | AtClear | Blocked | Returned

text \<open>
  The whole process: the globals \<open>stream\<close> and \<open>subIDCounter\<close>, what \<open>slog\<close> has
  written, the goroutine of \<open>start\<close>, the handler goroutines started and not yet ended
  (each with its Subscription and message), the \<open>emit\<close> calls that have read
  \<open>closed = false\<close> and not yet reached their \<open>select\<close>, the callers of \<open>Stop\<close>, and the
  panic that ended the process, if any. Two history fields record what happened and are
  read by no step: \<open>drains\<close> counts how often the function passed to \<open>stopOnce.Do\<close> was
  entered, \<open>issued\<close> lists the Subscriptions returned by \<open>Subscribe\<close>, oldest first.
\<close>

record ('h, 'm) proc =
  stream :: "('h, 'm) eventStream option"
  subIDCounter :: uint64
  slog :: "log_entry list"
  loop :: "('h, 'm) loop_pc"
  invocations :: "('h Subscription \<times> 'm) list"
  sending :: "'m event list"
  stoppers :: "nat \<Rightarrow> stop_pc"
  crashed :: "panic option"
  drains :: nat
  issued :: "'h Subscription list"

text \<open>The process before \<open>init\<close> has run, and \<open>init\<close>: \<open>stream = newStream()\<close>, which
  also starts the goroutine of \<open>start\<close>.\<close>

definition boot :: "('h, 'm) proc" where
  "boot =
     \<lparr>stream = None, subIDCounter = 0, slog = [], loop = NotStarted, invocations = [],
      sending = [], stoppers = (\<lambda>_. Idle), crashed = None, drains = 0, issued = []\<rparr>"

definition init :: "('h, 'm) proc \<Rightarrow> ('h, 'm) proc" where
  "init p = p\<lparr>stream := Some newStream, loop := AtSelect\<rparr>"

definition init_proc :: "('h, 'm) proc" where
  "init_proc = init boot"

subsection \<open>The package-level functions, run without interruption\<close>

definition Emit :: "('h, 'm) proc \<Rightarrow> string \<Rightarrow> 'm \<Rightarrow> panic + ('h, 'm) proc" where
  "Emit p tp v =
     (case stream p of
        None \<Rightarrow>
          Inr (p\<lparr>slog := slog p @ [(LevelWarn, ''event stream not initialized; dropping event'', tp)]\<rparr>)
      | Some e \<Rightarrow>
          (case emit e tp v of
             Inl pn \<Rightarrow> Inl pn
           | Inr (e', ls) \<Rightarrow> Inr (p\<lparr>stream := Some e', slog := slog p @ ls\<rparr>)))"

definition Subscribe ::
  "('h, 'm) proc \<Rightarrow> int64 \<Rightarrow> string \<Rightarrow> 'h \<Rightarrow> panic + ('h Subscription \<times> ('h, 'm) proc)" where
  "Subscribe p now tp h =
     (case stream p of
        None \<Rightarrow> Inl NilPointer
      | Some e \<Rightarrow>
          (case subscribe e (subIDCounter p) now tp h of
             (sub, e', ctr') \<Rightarrow>
               Inr (sub, p\<lparr>stream := Some e', subIDCounter := ctr', issued := issued p @ [sub]\<rparr>)))"

definition Unsubscribe :: "('h, 'm) proc \<Rightarrow> 'h Subscription \<Rightarrow> panic + ('h, 'm) proc" where
  "Unsubscribe p sub =
     (case stream p of
        None \<Rightarrow> Inl NilPointer
      | Some e \<Rightarrow> Inr (p\<lparr>stream := Some (unsubscribe e sub)\<rparr>))"

subsection \<open>One step of one goroutine\<close>

text \<open>
  The schedule is a list of actions; each names the goroutine that moves and, where the
  code leaves a choice (which ready case a \<open>select\<close> takes, how a handler ends), the choice.
  \<open>step\<close> is \<open>None\<close> when the action cannot happen in the state: the goroutine is blocked,
  does not exist, or the process has already died of a panic.
\<close>

datatype ('h, 'm) action =
    CallEmit string 'm                \<comment> \<open>\<open>Emit\<close> up to and including \<open>e.closed.Load()\<close>\<close>
  | EmitSelect nat                    \<comment> \<open>the \<open>select\<close> of the i-th pending \<open>emit\<close>\<close>
  | CallSubscribe int64 string 'h
  | CallUnsubscribe "'h Subscription"
  | StopStep nat                      \<comment> \<open>the next statement of caller c in \<open>Stop\<close>\<close>
  | LoopDone                          \<comment> \<open>\<open>start\<close>: the select takes \<open>ctx.Done()\<close>\<close>
  | LoopRecv                          \<comment> \<open>\<open>start\<close>: the select takes \<open>eventch\<close>\<close>
  | LoopSnapshot
  | LoopSpawn
  | HandlerReturn nat                 \<comment> \<open>the i-th running handler returns\<close>
  | HandlerPanic nat                  \<comment> \<open>the i-th running handler panics\<close>

definition die :: "('h, 'm) proc \<Rightarrow> panic \<Rightarrow> ('h, 'm) proc" where
  "die p pn = p\<lparr>crashed := Some pn\<rparr>"

definition drop_nth :: "nat \<Rightarrow> 'a list \<Rightarrow> 'a list" where
  "drop_nth i xs = take i xs @ drop (Suc i) xs"

definition call_emit :: "('h, 'm) proc \<Rightarrow> string \<Rightarrow> 'm \<Rightarrow> ('h, 'm) proc" where
  "call_emit p tp v =
     (case stream p of
        None \<Rightarrow> p\<lparr>slog := slog p @ [(LevelWarn, ''event stream not initialized; dropping event'', tp)]\<rparr>
      | Some e \<Rightarrow>
          if closed e
          then p\<lparr>slog := slog p @ [(LevelDebug, ''dropping event because stream is closed'', tp)]\<rparr>
          else p\<lparr>sending := sending p @ [\<lparr>topic = tp, message = v\<rparr>]\<rparr>)"

definition emit_select_step :: "('h, 'm) proc \<Rightarrow> nat \<Rightarrow> ('h, 'm) proc option" where
  "emit_select_step p i =
     (case stream p of
        None \<Rightarrow> None
      | Some e \<Rightarrow>
          if i < length (sending p)
          then (case emit_select e (sending p ! i) of
                  Inl pn \<Rightarrow> Some (die (p\<lparr>sending := drop_nth i (sending p)\<rparr>) pn)
                | Inr (e', ls) \<Rightarrow>
                    Some (p\<lparr>stream := Some e', slog := slog p @ ls,
                            sending := drop_nth i (sending p)\<rparr>))
          else None)"

text \<open>
  \<open>Stop\<close> for caller \<open>c\<close>. A call starts at \<open>Idle\<close> or \<open>Returned\<close>: with the nil stream it
  returns at once; otherwise \<open>stopOnce.Do\<close> either enters the function (first call), or
  waits for the running one (\<open>Blocked\<close>), or returns at once (function already done).
  The last statement of the function also marks the Once done and returns.
\<close>

definition stop_step :: "('h, 'm) proc \<Rightarrow> nat \<Rightarrow> ('h, 'm) proc option" where
  "stop_step p c =
     (case stream p of
        None \<Rightarrow>
          (if stoppers p c = Idle \<or> stoppers p c = Returned
           then Some (p\<lparr>stoppers := (stoppers p)(c := Returned)\<rparr>) else None)
      | Some e \<Rightarrow>
          (case stoppers p c of
             Idle \<Rightarrow>
               (case stopOnce e of
                  Fresh \<Rightarrow> Some (p\<lparr>stream := Some (e\<lparr>stopOnce := Running\<rparr>),
                                   stoppers := (stoppers p)(c := AtStore),
                                   drains := Suc (drains p)\<rparr>)
                | Running \<Rightarrow> Some (p\<lparr>stoppers := (stoppers p)(c := Blocked)\<rparr>)
                | Finished \<Rightarrow> Some (p\<lparr>stoppers := (stoppers p)(c := Returned)\<rparr>))
           | Returned \<Rightarrow>
               (case stopOnce e of
                  Fresh \<Rightarrow> Some (p\<lparr>stream := Some (e\<lparr>stopOnce := Running\<rparr>),
                                   stoppers := (stoppers p)(c := AtStore),
                                   drains := Suc (drains p)\<rparr>)
                | Running \<Rightarrow> Some (p\<lparr>stoppers := (stoppers p)(c := Blocked)\<rparr>)
                | Finished \<Rightarrow> Some (p\<lparr>stoppers := (stoppers p)(c := Returned)\<rparr>))
           | AtStore \<Rightarrow>
               Some (p\<lparr>stream := Some (stop_store e), stoppers := (stoppers p)(c := AtCancel)\<rparr>)
           | AtCancel \<Rightarrow>
               Some (p\<lparr>stream := Some (stop_cancel e), stoppers := (stoppers p)(c := AtClose)\<rparr>)
           | AtClose \<Rightarrow>
               (case stop_close e of
                  Inl pn \<Rightarrow> Some (die p pn)
                | Inr e' \<Rightarrow> Some (p\<lparr>stream := Some e', stoppers := (stoppers p)(c := AtWait)\<rparr>))
           | AtWait \<Rightarrow>
               (case stop_wait e of
                  None \<Rightarrow> None
                | Some e' \<Rightarrow> Some (p\<lparr>stream := Some e', stoppers := (stoppers p)(c := AtClear)\<rparr>))
           | AtClear \<Rightarrow>
               Some (p\<lparr>stream := Some ((stop_clear e)\<lparr>stopOnce := Finished\<rparr>),
                       stoppers := (stoppers p)(c := Returned)\<rparr>)
           | Blocked \<Rightarrow>
               (if stopOnce e = Finished
                then Some (p\<lparr>stoppers := (stoppers p)(c := Returned)\<rparr>) else None)))"

text \<open>The goroutine of \<open>start\<close>.\<close>

definition loop_done :: "('h, 'm) proc \<Rightarrow> ('h, 'm) proc option" where
  "loop_done p =
     (case stream p of
        None \<Rightarrow> None
      | Some e \<Rightarrow> if loop p = AtSelect \<and> ctx_done e then Some (p\<lparr>loop := Exited\<rparr>) else None)"

definition loop_recv :: "('h, 'm) proc \<Rightarrow> ('h, 'm) proc option" where
  "loop_recv p =
     (case stream p of
        None \<Rightarrow> None
      | Some e \<Rightarrow>
          if loop p = AtSelect
          then (case chan_recv (eventch e) of
                  Received evt ch \<Rightarrow> Some (p\<lparr>stream := Some (e\<lparr>eventch := ch\<rparr>), loop := AtSnapshot evt\<rparr>)
                | RecvClosed \<Rightarrow> Some (p\<lparr>loop := Exited\<rparr>)
                | RecvWouldBlock \<Rightarrow> None)
          else None)"

definition loop_snapshot :: "('h, 'm) proc \<Rightarrow> ('h, 'm) proc option" where
  "loop_snapshot p =
     (case stream p of
        None \<Rightarrow> None
      | Some e \<Rightarrow>
          (case loop p of
             AtSnapshot evt \<Rightarrow>
               (let handlers = snapshot e (topic evt)
                in if length handlers = 0 then Some (p\<lparr>loop := AtSelect\<rparr>)
                   else Some (p\<lparr>loop := AtSpawn handlers (message evt)\<rparr>))
           | _ \<Rightarrow> None))"

text \<open>One round of \<open>for _, sub := range handlers\<close>: \<open>e.wg.Add(1)\<close> and the \<open>go\<close>
  statement; after the last round the loop is back at the \<open>select\<close>.\<close>

definition loop_spawn :: "('h, 'm) proc \<Rightarrow> ('h, 'm) proc option" where
  "loop_spawn p =
     (case stream p of
        None \<Rightarrow> None
      | Some e \<Rightarrow>
          (case loop p of
             AtSpawn (sub # rest) msg \<Rightarrow>
               Some (p\<lparr>stream := Some (e\<lparr>wg := wg e + 1\<rparr>),
                       invocations := invocations p @ [(sub, msg)],
                       loop := (if rest = [] then AtSelect else AtSpawn rest msg)\<rparr>)
           | _ \<Rightarrow> None))"

text \<open>
  A handler goroutine is \<open>defer e.wg.Done(); s.Fn(e.ctx, msg)\<close>. When \<open>s.Fn\<close> returns,
  the deferred \<open>Done\<close> runs and the goroutine ends. When \<open>s.Fn\<close> panics, the deferred
  \<open>Done\<close> runs while the panic unwinds; no deferred function calls \<open>recover\<close>, so the
  panic reaches the top of the goroutine and the Go runtime ends the process.
\<close>

definition handler_end :: "('h, 'm) proc \<Rightarrow> nat \<Rightarrow> bool \<Rightarrow> ('h, 'm) proc option" where
  "handler_end p i panics =
     (case stream p of
        None \<Rightarrow> None
      | Some e \<Rightarrow>
          if i < length (invocations p)
          then (case wg_Done (wg e) of
                  Inl pn \<Rightarrow> Some (die (p\<lparr>invocations := drop_nth i (invocations p)\<rparr>) pn)
                | Inr n \<Rightarrow>
                    (let p' = p\<lparr>stream := Some (e\<lparr>wg := n\<rparr>),
                                 invocations := drop_nth i (invocations p)\<rparr>
                     in if panics then Some (die p' HandlerFault) else Some p'))
          else None)"

definition lift_panic :: "('h, 'm) proc \<Rightarrow> panic + ('h, 'm) proc \<Rightarrow> ('h, 'm) proc" where
  "lift_panic p r = (case r of Inl pn \<Rightarrow> die p pn | Inr p' \<Rightarrow> p')"

fun act :: "('h, 'm) action \<Rightarrow> ('h, 'm) proc \<Rightarrow> ('h, 'm) proc option" where
  "act (CallEmit tp v) p = Some (call_emit p tp v)"
| "act (EmitSelect i) p = emit_select_step p i"
| "act (CallSubscribe now tp h) p =
     Some (case Subscribe p now tp h of Inl pn \<Rightarrow> die p pn | Inr (sub, p') \<Rightarrow> p')"
| "act (CallUnsubscribe sub) p = Some (lift_panic p (Unsubscribe p sub))"
| "act (StopStep c) p = stop_step p c"
| "act LoopDone p = loop_done p"
| "act LoopRecv p = loop_recv p"
| "act LoopSnapshot p = loop_snapshot p"
| "act LoopSpawn p = loop_spawn p"
| "act (HandlerReturn i) p = handler_end p i False"
| "act (HandlerPanic i) p = handler_end p i True"

definition step :: "('h, 'm) action \<Rightarrow> ('h, 'm) proc \<Rightarrow> ('h, 'm) proc option" where
  "step a p = (if crashed p = None then act a p else None)"

fun exec :: "('h, 'm) action list \<Rightarrow> ('h, 'm) proc \<Rightarrow> ('h, 'm) proc option" where
  "exec [] p = Some p"
| "exec (a # as) p = (case step a p of None \<Rightarrow> None | Some p' \<Rightarrow> exec as p')"

section \<open>Observations and invariants\<close>

text \<open>The registry as the process sees it: empty while \<open>stream\<close> is nil.\<close>

definition registry :: "('h, 'm) proc \<Rightarrow> string \<rightharpoonup> 'h Subscription list" where
  "registry p = (case stream p of None \<Rightarrow> Map.empty | Some e \<Rightarrow> subs e)"

text \<open>No topic is mapped to the empty list.\<close>

definition no_empty :: "('k \<rightharpoonup> 'a list) \<Rightarrow> bool" where
  "no_empty m = (\<forall>t. m t \<noteq> Some [])"

text \<open>The log line of an \<open>emit\<close> that drops its event.\<close>

definition drop_line :: "('h, 'm) eventStream \<Rightarrow> string \<Rightarrow> log_entry" where
  "drop_line e tp =
     (if closed e then (LevelDebug, ''dropping event because stream is closed'', tp)
      else (LevelWarn, ''event channel full; dropping event'', tp))"

text \<open>
  A caller of \<open>Stop\<close> is inside the function passed to \<open>stopOnce.Do\<close>; the three flags
  that function sets, in the order it sets them (\<open>closed\<close>, the context, the closed queue);
  and what they are when the caller stands at a given statement.
\<close>

definition in_body :: "stop_pc \<Rightarrow> bool" where
  "in_body pc = (pc = AtStore \<or> pc = AtCancel \<or> pc = AtClose \<or> pc = AtWait \<or> pc = AtClear)"

definition flags :: "('h, 'm) eventStream \<Rightarrow> bool \<times> bool \<times> bool" where
  "flags e = (closed e, ctx_done e, is_closed (eventch e))"

fun flags_at :: "stop_pc \<Rightarrow> bool \<times> bool \<times> bool" where
  "flags_at AtStore = (False, False, False)"
| "flags_at AtCancel = (True, False, False)"
| "flags_at AtClose = (True, True, False)"
| "flags_at pc = (True, True, True)"

text \<open>
  While the Once is running exactly one caller is inside the function, the flags are what
  its position says, and every other caller has either not called or waits for the Once.
\<close>

definition owner_ok :: "bool \<times> bool \<times> bool \<Rightarrow> (nat \<Rightarrow> stop_pc) \<Rightarrow> bool" where
  "owner_ok fl st =
     (\<exists>c. in_body (st c) \<and> fl = flags_at (st c)
          \<and> (\<forall>c'. c' \<noteq> c \<longrightarrow> st c' = Idle \<or> st c' = Blocked))"

text \<open>
  The invariant of the process after \<open>init\<close>: the stream exists; the queue has capacity 128
  and holds no more; the WaitGroup counter is the number of handler goroutines in flight;
  the function of the Once was entered once exactly when the Once is no longer fresh; the
  flags agree with the progress of \<open>Stop\<close>; and the only panics that can have ended the
  process are a handler's own and a send on the closed queue.
\<close>

definition inv :: "('h, 'm) proc \<Rightarrow> bool" where
  "inv p =
     (case stream p of
        None \<Rightarrow> False
      | Some e \<Rightarrow>
          cap (eventch e) = 128 \<and> length (buf (eventch e)) \<le> 128
        \<and> wg e = length (invocations p)
        \<and> drains p = (if stopOnce e = Fresh then 0 else 1)
        \<and> (stopOnce e = Fresh \<longrightarrow> flags e = (False, False, False) \<and> (\<forall>c. stoppers p c = Idle))
        \<and> (stopOnce e = Running \<longrightarrow> owner_ok (flags e) (stoppers p))
        \<and> (stopOnce e = Finished \<longrightarrow>
              flags e = (True, True, True) \<and> (\<forall>c. \<not> in_body (stoppers p c)))
        \<and> (crashed p = None \<or> crashed p = Some HandlerFault \<or> crashed p = Some SendOnClosed))"

text \<open>
  The ids issued so far are 1, 2, 3, ... in this order (as \<open>uint64\<close>), and the counter is
  the number of Subscriptions issued (as \<open>uint64\<close>).
\<close>

definition ids_inv :: "('h, 'm) proc \<Rightarrow> bool" where
  "ids_inv p =
     (subIDCounter p = of_nat (length (issued p))
      \<and> map ID (issued p) = map (\<lambda>k. of_nat (Suc k)) [0..<length (issued p)])"



text \<open>The actions by which a handler goroutine ends.\<close>

fun handler_ends :: "('h, 'm) action \<Rightarrow> bool" where
  "handler_ends (HandlerReturn i) = True"
| "handler_ends (HandlerPanic i) = True"
| "handler_ends a = False"

section \<open>Schedules\<close>

text \<open>\<open>n\<close> complete \<open>Emit\<close> calls, one after the other.\<close>

definition emit_actions :: "string \<Rightarrow> 'm \<Rightarrow> nat \<Rightarrow> ('h, 'm) action list" where
  "emit_actions tp v n = concat (replicate n [CallEmit tp v, EmitSelect 0])"

text \<open>The Subscriptions that a run of \<open>subscribe\<close> calls on one topic returns, the counter
  standing at \<open>ctr\<close> before the first.\<close>

fun new_subs :: "uint64 \<Rightarrow> string \<Rightarrow> (int64 \<times> 'h) list \<Rightarrow> 'h Subscription list" where
  "new_subs ctr tp [] = []"
| "new_subs ctr tp ((now, h) # hs) =
     \<lparr>ID = ctr + 1, Topic = tp, CreatedAt = now, Fn = h\<rparr> # new_subs (ctr + 1) tp hs"






section \<open>The registry on a store of backing arrays\<close>

text \<open>
  Go slices are triples (pointer to a backing array, length, capacity) and several slices
  may share one backing array. For the snapshot the sharing matters, so the registry is
  modelled once more with an explicit store of backing arrays. \<open>append\<close> writes in place
  while there is room and moves to a fresh, larger array otherwise (the new capacity is
  given by a parameter \<open>g\<close>, of which only \<open>n \<le> g c n\<close> is used); \<open>slices.DeleteFunc\<close>
  compacts the array in place and zeroes the cells it frees (\<open>z\<close> is the zero value).
  Address 0 is the nil slice's (empty) array.
\<close>

type_synonym addr = nat

record slice =
  sl_ptr :: addr
  sl_len :: nat
  sl_cap :: nat

record 'a store =
  arrays :: "addr \<Rightarrow> 'a list"
  fresh :: addr

definition nil_slice :: slice where
  "nil_slice = \<lparr>sl_ptr = 0, sl_len = 0, sl_cap = 0\<rparr>"

definition elems :: "'a store \<Rightarrow> slice \<Rightarrow> 'a list" where
  "elems st s = take (sl_len s) (arrays st (sl_ptr s))"

text \<open>\<open>append(s, x)\<close>.\<close>

definition append1 ::
  "(nat \<Rightarrow> nat \<Rightarrow> nat) \<Rightarrow> 'a \<Rightarrow> 'a store \<Rightarrow> slice \<Rightarrow> 'a \<Rightarrow> slice \<times> 'a store" where
  "append1 g z st s x =
     (if sl_len s < sl_cap s
      then (s\<lparr>sl_len := sl_len s + 1\<rparr>,
            st\<lparr>arrays := (arrays st)(sl_ptr s := (arrays st (sl_ptr s))[sl_len s := x])\<rparr>)
      else (let c = g (sl_cap s) (sl_len s + 1)
            in (\<lparr>sl_ptr = fresh st, sl_len = sl_len s + 1, sl_cap = c\<rparr>,
                st\<lparr>arrays := (arrays st)(fresh st := elems st s @ [x] @ replicate (c - (sl_len s + 1)) z),
                    fresh := fresh st + 1\<rparr>)))"

text \<open>\<open>append([]T(nil), src...)\<close>: nil when \<open>src\<close> is empty, a fresh array otherwise.\<close>

definition append_to_nil ::
  "(nat \<Rightarrow> nat \<Rightarrow> nat) \<Rightarrow> 'a \<Rightarrow> 'a store \<Rightarrow> slice \<Rightarrow> slice \<times> 'a store" where
  "append_to_nil g z st src =
     (if sl_len src = 0 then (nil_slice, st)
      else (let c = g 0 (sl_len src)
            in (\<lparr>sl_ptr = fresh st, sl_len = sl_len src, sl_cap = c\<rparr>,
                st\<lparr>arrays := (arrays st)(fresh st := elems st src @ replicate (c - sl_len src) z),
                    fresh := fresh st + 1\<rparr>)))"

text \<open>\<open>slices.DeleteFunc(s, del)\<close> on the store.\<close>

definition delete_func ::
  "'a \<Rightarrow> 'a store \<Rightarrow> slice \<Rightarrow> ('a \<Rightarrow> bool) \<Rightarrow> slice \<times> 'a store" where
  "delete_func z st s del =
     (let kept = filter (\<lambda>x. \<not> del x) (elems st s)
      in (s\<lparr>sl_len := length kept\<rparr>,
          st\<lparr>arrays := (arrays st)(sl_ptr s :=
                 kept @ replicate (sl_len s - length kept) z @ drop (sl_len s) (arrays st (sl_ptr s)))\<rparr>))"

text \<open>The registry map \<open>e.subs\<close> with its store, and the three operations that change it.\<close>

record 'h hreg =
  hsubs :: "string \<rightharpoonup> slice"
  hstore :: "'h Subscription store"

definition hnew :: "'h hreg" where
  "hnew = \<lparr>hsubs = Map.empty, hstore = \<lparr>arrays = (\<lambda>_. []), fresh = 1\<rparr>\<rparr>"

definition hindex :: "(string \<rightharpoonup> slice) \<Rightarrow> string \<Rightarrow> slice" where
  "hindex m k = (case m k of None \<Rightarrow> nil_slice | Some s \<Rightarrow> s)"

definition hsubscribe ::
  "(nat \<Rightarrow> nat \<Rightarrow> nat) \<Rightarrow> 'h Subscription \<Rightarrow> 'h hreg \<Rightarrow> 'h Subscription \<Rightarrow> 'h hreg" where
  "hsubscribe g z R sub =
     (case append1 g z (hstore R) (hindex (hsubs R) (Topic sub)) sub of
        (s', st') \<Rightarrow> \<lparr>hsubs = (hsubs R)(Topic sub \<mapsto> s'), hstore = st'\<rparr>)"

definition hunsubscribe :: "'h Subscription \<Rightarrow> 'h hreg \<Rightarrow> 'h Subscription \<Rightarrow> 'h hreg" where
  "hunsubscribe z R sub =
     (case hsubs R (Topic sub) of
        None \<Rightarrow> R
      | Some s \<Rightarrow>
          (case delete_func z (hstore R) s (\<lambda>x. ID x = ID sub) of
             (s', st') \<Rightarrow>
               (let R1 = \<lparr>hsubs = (hsubs R)(Topic sub \<mapsto> s'), hstore = st'\<rparr>
                in if sl_len (hindex (hsubs R1) (Topic sub)) = 0
                   then R1\<lparr>hsubs := (hsubs R1)(Topic sub := None)\<rparr>
                   else R1)))"

definition hclear :: "'h hreg \<Rightarrow> 'h hreg" where
  "hclear R = R\<lparr>hsubs := Map.empty\<rparr>"

datatype 'h reg_op = OpSubscribe "'h Subscription" | OpUnsubscribe "'h Subscription" | OpClear

fun apply_op :: "(nat \<Rightarrow> nat \<Rightarrow> nat) \<Rightarrow> 'h Subscription \<Rightarrow> 'h hreg \<Rightarrow> 'h reg_op \<Rightarrow> 'h hreg" where
  "apply_op g z R (OpSubscribe sub) = hsubscribe g z R sub"
| "apply_op g z R (OpUnsubscribe sub) = hunsubscribe z R sub"
| "apply_op g z R OpClear = hclear R"

definition apply_ops :: "(nat \<Rightarrow> nat \<Rightarrow> nat) \<Rightarrow> 'h Subscription \<Rightarrow> 'h hreg \<Rightarrow> 'h reg_op list \<Rightarrow> 'h hreg" where
  "apply_ops g z R ops = foldl (apply_op g z) R ops"

text \<open>The snapshot of \<open>start\<close> on the store.\<close>

definition hsnapshot ::
  "(nat \<Rightarrow> nat \<Rightarrow> nat) \<Rightarrow> 'h Subscription \<Rightarrow> 'h hreg \<Rightarrow> string \<Rightarrow> slice \<times> 'h hreg" where
  "hsnapshot g z R tp =
     (case append_to_nil g z (hstore R) (hindex (hsubs R) tp) of
        (snap, st') \<Rightarrow> (snap, R\<lparr>hstore := st'\<rparr>))"

text \<open>
  \<open>for _, sub := range handlers\<close>: round \<open>i\<close> reads cell \<open>i\<close> of the backing array of
  \<open>handlers\<close> as the store is then. \<open>opss\<close> gives, for each round, the registry operations
  that other goroutines perform before the read.
\<close>

fun range_reads ::
  "(nat \<Rightarrow> nat \<Rightarrow> nat) \<Rightarrow> 'h Subscription \<Rightarrow> 'h hreg \<Rightarrow> slice \<Rightarrow> nat \<Rightarrow> 'h reg_op list list
     \<Rightarrow> 'h Subscription list" where
  "range_reads g z R handlers i [] = []"
| "range_reads g z R handlers i (ops # opss) =
     (let R' = apply_ops g z R ops
      in arrays (hstore R') (sl_ptr handlers) ! i # range_reads g z R' handlers (Suc i) opss)"

text \<open>What the list-level registry sees of the store.\<close>

definition abs_reg :: "'h hreg \<Rightarrow> string \<rightharpoonup> 'h Subscription list" where
  "abs_reg R = (\<lambda>t. map_option (elems (hstore R)) (hsubs R t))"

text \<open>
  A slice lies inside an allocated array. In a well-formed registry the nil array is empty,
  every topic's slice is non-empty, lies in an array of its own, and that array is not the
  nil array.
\<close>

definition wf_slice :: "'a store \<Rightarrow> slice \<Rightarrow> bool" where
  "wf_slice st s =
     (sl_len s \<le> sl_cap s \<and> length (arrays st (sl_ptr s)) = sl_cap s \<and> sl_ptr s < fresh st)"

definition wf_reg :: "'h hreg \<Rightarrow> bool" where
  "wf_reg R =
     (arrays (hstore R) 0 = [] \<and> 0 < fresh (hstore R)
      \<and> (\<forall>t s. hsubs R t = Some s \<longrightarrow>
            wf_slice (hstore R) s \<and> sl_ptr s \<noteq> 0 \<and> 0 < sl_len s
            \<and> (\<forall>t' s'. hsubs R t' = Some s' \<and> t' \<noteq> t \<longrightarrow> sl_ptr s' \<noteq> sl_ptr s)))"

text \<open>An allocated array that no slice of the registry points to.\<close>

definition unshared :: "'h hreg \<Rightarrow> addr \<Rightarrow> bool" where
  "unshared R a = (a < fresh (hstore R) \<and> (\<forall>t s. hsubs R t = Some s \<longrightarrow> sl_ptr s \<noteq> a))"

text \<open>The only property of the growth policy of \<open>append\<close> that is used.\<close>

definition grows :: "(nat \<Rightarrow> nat \<Rightarrow> nat) \<Rightarrow> bool" where
  "grows g = (\<forall>c n. n \<le> g c n)"

text \<open>The same operations on the list-level registry of the stream.\<close>

fun list_op :: "(string \<rightharpoonup> 'h Subscription list) \<Rightarrow> 'h reg_op \<Rightarrow> (string \<rightharpoonup> 'h Subscription list)" where
  "list_op m (OpSubscribe sub) = m(Topic sub \<mapsto> index_map m (Topic sub) @ [sub])"
| "list_op m (OpUnsubscribe sub) = subs (unsubscribe ((newStream :: ('h, unit) eventStream)\<lparr>subs := m\<rparr>) sub)"
| "list_op m OpClear = subs (stop_clear ((newStream :: ('h, unit) eventStream)\<lparr>subs := m\<rparr>))"

section \<open>Concrete states and schedules\<close>

text \<open>
  The states and schedules at which the theorems below are instantiated, with handlers and
  payloads taken from \<open>nat\<close>.
\<close>

text \<open>The queue filled by 128 \<open>Emit\<close> calls.\<close>

definition full_proc :: "(nat, nat) proc" where
  "full_proc = init_proc\<lparr>stream := Some (newStream\<lparr>eventch :=
                \<lparr>buf = replicate 128 \<lparr>topic = ''t'', message = 7\<rparr>, cap = 128, is_closed = False\<rparr>\<rparr>)\<rparr>"

text \<open>The state after \<open>2^64 - 1\<close> Subscribe calls.\<close>

definition max_uint64 :: nat where
  "max_uint64 = 2 ^ 64 - 1"

definition wrapped_proc :: "(unit, unit) proc" where
  "wrapped_proc =
     (case exec (replicate max_uint64 (CallSubscribe 0 ''t'' ())) init_proc of
        Some p \<Rightarrow> p | None \<Rightarrow> boot)"

text \<open>Two subscriptions on two topics.\<close>

definition three_subs :: "(nat, nat) proc" where
  "three_subs =
     init_proc\<lparr>stream := Some (newStream\<lparr>subs :=
                  [''a'' \<mapsto> [\<lparr>ID = 1, Topic = ''a'', CreatedAt = 10, Fn = 1\<rparr>],
                   ''b'' \<mapsto> [\<lparr>ID = 2, Topic = ''b'', CreatedAt = 11, Fn = 2\<rparr>]]\<rparr>),
               subIDCounter := 2,
               issued := [\<lparr>ID = 1, Topic = ''a'', CreatedAt = 10, Fn = 1\<rparr>,
                          \<lparr>ID = 2, Topic = ''b'', CreatedAt = 11, Fn = 2\<rparr>]\<rparr>"



text \<open>One subscriber, one event dispatched, its handler in flight; and the handler panicking.\<close>

definition one_running :: "(nat, nat) proc" where
  "one_running =
     init_proc\<lparr>stream := Some (newStream\<lparr>subs := [''t'' \<mapsto> [\<lparr>ID = 1, Topic = ''t'', CreatedAt = 5, Fn = 1\<rparr>]],
                                          wg := 1\<rparr>),
               subIDCounter := 1,
               invocations := [(\<lparr>ID = 1, Topic = ''t'', CreatedAt = 5, Fn = 1\<rparr>, 9)],
               issued := [\<lparr>ID = 1, Topic = ''t'', CreatedAt = 5, Fn = 1\<rparr>]\<rparr>"

definition faulty_sched :: "(nat, nat) action list" where
  "faulty_sched =
     [CallSubscribe 5 ''t'' 1, CallEmit ''t'' 9, EmitSelect 0, LoopRecv, LoopSnapshot, LoopSpawn,
      HandlerPanic 0]"


text \<open>\<open>Stop\<close> called between the snapshot of the dispatch loop and its first \<open>wg.Add\<close>.\<close>

definition racing_sched :: "(nat, nat) action list" where
  "racing_sched =
     [CallSubscribe 5 ''t'' 1, CallEmit ''t'' 9, EmitSelect 0, LoopRecv, LoopSnapshot,
      StopStep 0, StopStep 0, StopStep 0, StopStep 0, StopStep 0, StopStep 0,
      LoopSpawn]"

text \<open>An event queued, then \<open>Stop\<close> run to its return; and what may follow.\<close>

definition stopped_sched :: "(nat, nat) action list" where
  "stopped_sched =
     [CallEmit ''t'' 9, EmitSelect 0,
      StopStep 0, StopStep 0, StopStep 0, StopStep 0, StopStep 0, StopStep 0]"

definition late_sched :: "(nat, nat) action list" where
  "late_sched = [CallSubscribe 5 ''t'' 1, LoopRecv, LoopSnapshot, LoopSpawn]"


text \<open>A growth policy, a zero value, three Subscriptions, and the registry store after \<open>Subscribe A; Subscribe B; Unsubscribe A\<close> and a snapshot of their topic.\<close>

definition w_grow :: "nat \<Rightarrow> nat \<Rightarrow> nat" where
  "w_grow c n = max (2 * c) n"

definition w_zero :: "nat Subscription" where
  "w_zero = \<lparr>ID = 0, Topic = [], CreatedAt = 0, Fn = 0\<rparr>"

definition w_A :: "nat Subscription" where
  "w_A = \<lparr>ID = 1, Topic = ''t'', CreatedAt = 5, Fn = 1\<rparr>"

definition w_B :: "nat Subscription" where
  "w_B = \<lparr>ID = 2, Topic = ''t'', CreatedAt = 6, Fn = 2\<rparr>"

definition w_C :: "nat Subscription" where
  "w_C = \<lparr>ID = 3, Topic = ''t'', CreatedAt = 7, Fn = 3\<rparr>"

definition w_snapshot_reg :: "nat hreg" where
  "w_snapshot_reg =
     \<lparr>hsubs = [''t'' \<mapsto> \<lparr>sl_ptr = 2, sl_len = 1, sl_cap = 2\<rparr>],
      hstore = \<lparr>arrays = (\<lambda>_. [])(1 := [w_A], 2 := [w_B, w_zero], 3 := [w_B]), fresh = 4\<rparr>\<rparr>"

section \<open>Case analysis of a step\<close>

lemmas stop_defs = stop_step_def stop_store_def stop_cancel_def stop_close_def stop_wait_def
  stop_clear_def chan_close_def

lemma stop_step_cases [consumes 1, case_names nil enter block skip store cancel close wait clear unblock]:
  assumes "stop_step p c = Some p'"
  obtains
    (nil) "stream p = None" "stoppers p c = Idle \<or> stoppers p c = Returned"
          "p' = p\<lparr>stoppers := (stoppers p)(c := Returned)\<rparr>"
  | (enter) e where "stream p = Some e" "stoppers p c = Idle \<or> stoppers p c = Returned"
          "stopOnce e = Fresh"
          "p' = p\<lparr>stream := Some (e\<lparr>stopOnce := Running\<rparr>),
                   stoppers := (stoppers p)(c := AtStore), drains := Suc (drains p)\<rparr>"
  | (block) e where "stream p = Some e" "stoppers p c = Idle \<or> stoppers p c = Returned"
          "stopOnce e = Running" "p' = p\<lparr>stoppers := (stoppers p)(c := Blocked)\<rparr>"
  | (skip) e where "stream p = Some e" "stoppers p c = Idle \<or> stoppers p c = Returned"
          "stopOnce e = Finished" "p' = p\<lparr>stoppers := (stoppers p)(c := Returned)\<rparr>"
  | (store) e where "stream p = Some e" "stoppers p c = AtStore"
          "p' = p\<lparr>stream := Some (e\<lparr>closed := True\<rparr>), stoppers := (stoppers p)(c := AtCancel)\<rparr>"
  | (cancel) e where "stream p = Some e" "stoppers p c = AtCancel"
          "p' = p\<lparr>stream := Some (e\<lparr>ctx_done := True\<rparr>), stoppers := (stoppers p)(c := AtClose)\<rparr>"
  | (close) e where "stream p = Some e" "stoppers p c = AtClose"
          "p' = (if is_closed (eventch e) then p\<lparr>crashed := Some CloseOfClosed\<rparr>
                 else p\<lparr>stream := Some (e\<lparr>eventch := (eventch e)\<lparr>is_closed := True\<rparr>\<rparr>),
                        stoppers := (stoppers p)(c := AtWait)\<rparr>)"
  | (wait) e where "stream p = Some e" "stoppers p c = AtWait" "wg e = 0"
          "p' = p\<lparr>stream := Some e, stoppers := (stoppers p)(c := AtClear)\<rparr>"
  | (clear) e where "stream p = Some e" "stoppers p c = AtClear"
          "p' = p\<lparr>stream := Some (e\<lparr>subs := Map.empty, stopOnce := Finished\<rparr>),
                   stoppers := (stoppers p)(c := Returned)\<rparr>"
  | (unblock) e where "stream p = Some e" "stoppers p c = Blocked" "stopOnce e = Finished"
          "p' = p\<lparr>stoppers := (stoppers p)(c := Returned)\<rparr>"
proof (cases "stream p")
  case None
  with assms show ?thesis by (intro nil) (auto simp: stop_step_def split: if_splits)
next
  case (Some e)
  show ?thesis
  proof (cases "stoppers p c")
    case Idle
    with Some assms show ?thesis
      by (cases "stopOnce e") (auto simp: stop_step_def intro: enter block skip)
  next
    case Returned
    with Some assms show ?thesis
      by (cases "stopOnce e") (auto simp: stop_step_def intro: enter block skip)
  next
    case AtStore
    with Some assms show ?thesis by (intro store) (auto simp: stop_defs)
  next
    case AtCancel
    with Some assms show ?thesis by (intro cancel) (auto simp: stop_defs)
  next
    case AtClose
    with Some assms show ?thesis by (intro close) (auto simp: stop_defs die_def)
  next
    case AtWait
    with Some assms show ?thesis by (intro wait) (auto simp: stop_defs split: if_splits)
  next
    case AtClear
    with Some assms show ?thesis by (intro clear) (auto simp: stop_defs)
  next
    case Blocked
    with Some assms show ?thesis by (intro unblock) (auto simp: stop_defs split: if_splits)
  qed
qed

lemma step_cases [consumes 1, case_names emit_nil emit_closed emit_open sel_panic sel_sent sel_full
    sub_nil sub unsub_nil unsub stop loop_done recv recv_closed snap_empty snap spawn
    wg_neg ret fault]:
  assumes "step a p = Some p'"
  obtains
    (emit_nil) tp v where "a = CallEmit tp v" "stream p = None"
      "p' = p\<lparr>slog := slog p @ [(LevelWarn, ''event stream not initialized; dropping event'', tp)]\<rparr>"
  | (emit_closed) tp v e where "a = CallEmit tp v" "stream p = Some e" "closed e"
      "p' = p\<lparr>slog := slog p @ [(LevelDebug, ''dropping event because stream is closed'', tp)]\<rparr>"
  | (emit_open) tp v e where "a = CallEmit tp v" "stream p = Some e" "\<not> closed e"
      "p' = p\<lparr>sending := sending p @ [\<lparr>topic = tp, message = v\<rparr>]\<rparr>"
  | (sel_panic) i e where "a = EmitSelect i" "stream p = Some e" "i < length (sending p)"
      "is_closed (eventch e)"
      "p' = p\<lparr>sending := drop_nth i (sending p), crashed := Some SendOnClosed\<rparr>"
  | (sel_sent) i e where "a = EmitSelect i" "stream p = Some e" "i < length (sending p)"
      "\<not> is_closed (eventch e)" "length (buf (eventch e)) < cap (eventch e)"
      "p' = p\<lparr>stream := Some (e\<lparr>eventch := (eventch e)\<lparr>buf := buf (eventch e) @ [sending p ! i]\<rparr>\<rparr>),
               slog := slog p @ [], sending := drop_nth i (sending p)\<rparr>"
  | (sel_full) i e where "a = EmitSelect i" "stream p = Some e" "i < length (sending p)"
      "\<not> is_closed (eventch e)" "\<not> length (buf (eventch e)) < cap (eventch e)"
      "p' = p\<lparr>stream := Some e,
               slog := slog p @ [(LevelWarn, ''event channel full; dropping event'', topic (sending p ! i))],
               sending := drop_nth i (sending p)\<rparr>"
  | (sub_nil) now tp h where "a = CallSubscribe now tp h" "stream p = None"
      "p' = p\<lparr>crashed := Some NilPointer\<rparr>"
  | (sub) now tp h e where "a = CallSubscribe now tp h" "stream p = Some e"
      "p' = p\<lparr>stream := Some (e\<lparr>subs := (subs e)(tp \<mapsto> index_map (subs e) tp @
                  [\<lparr>ID = subIDCounter p + 1, Topic = tp, CreatedAt = now, Fn = h\<rparr>])\<rparr>),
               subIDCounter := subIDCounter p + 1,
               issued := issued p @ [\<lparr>ID = subIDCounter p + 1, Topic = tp, CreatedAt = now, Fn = h\<rparr>]\<rparr>"
  | (unsub_nil) sub where "a = CallUnsubscribe sub" "stream p = None"
      "p' = p\<lparr>crashed := Some NilPointer\<rparr>"
  | (unsub) sub e where "a = CallUnsubscribe sub" "stream p = Some e"
      "p' = p\<lparr>stream := Some (unsubscribe e sub)\<rparr>"
  | (stop) c where "a = StopStep c" "stop_step p c = Some p'"
  | (loop_done) e where "a = LoopDone" "stream p = Some e" "loop p = AtSelect" "ctx_done e"
      "p' = p\<lparr>loop := Exited\<rparr>"
  | (recv) e evt rest where "a = LoopRecv" "stream p = Some e" "loop p = AtSelect"
      "buf (eventch e) = evt # rest"
      "p' = p\<lparr>stream := Some (e\<lparr>eventch := (eventch e)\<lparr>buf := rest\<rparr>\<rparr>), loop := AtSnapshot evt\<rparr>"
  | (recv_closed) e where "a = LoopRecv" "stream p = Some e" "loop p = AtSelect"
      "buf (eventch e) = []" "is_closed (eventch e)" "p' = p\<lparr>loop := Exited\<rparr>"
  | (snap_empty) e evt where "a = LoopSnapshot" "stream p = Some e" "loop p = AtSnapshot evt"
      "index_map (subs e) (topic evt) = []" "p' = p\<lparr>loop := AtSelect\<rparr>"
  | (snap) e evt where "a = LoopSnapshot" "stream p = Some e" "loop p = AtSnapshot evt"
      "index_map (subs e) (topic evt) \<noteq> []"
      "p' = p\<lparr>loop := AtSpawn (index_map (subs e) (topic evt)) (message evt)\<rparr>"
  | (spawn) e sub rest msg where "a = LoopSpawn" "stream p = Some e" "loop p = AtSpawn (sub # rest) msg"
      "p' = p\<lparr>stream := Some (e\<lparr>wg := wg e + 1\<rparr>), invocations := invocations p @ [(sub, msg)],
               loop := (if rest = [] then AtSelect else AtSpawn rest msg)\<rparr>"
  | (wg_neg) i e where "a = HandlerReturn i \<or> a = HandlerPanic i" "stream p = Some e"
      "i < length (invocations p)" "wg e = 0"
      "p' = p\<lparr>invocations := drop_nth i (invocations p), crashed := Some NegativeCounter\<rparr>"
  | (ret) i e where "a = HandlerReturn i" "stream p = Some e" "i < length (invocations p)" "wg e \<noteq> 0"
      "p' = p\<lparr>stream := Some (e\<lparr>wg := wg e - 1\<rparr>), invocations := drop_nth i (invocations p)\<rparr>"
  | (fault) i e where "a = HandlerPanic i" "stream p = Some e" "i < length (invocations p)" "wg e \<noteq> 0"
      "p' = p\<lparr>stream := Some (e\<lparr>wg := wg e - 1\<rparr>), invocations := drop_nth i (invocations p),
               crashed := Some HandlerFault\<rparr>"
proof -
  from assms have live: "crashed p = None" and act: "act a p = Some p'"
    by (auto simp: step_def split: if_splits)
  show ?thesis
  proof (cases a)
    case (CallEmit tp v)
    with act show ?thesis
      by (cases "stream p") (auto simp: call_emit_def split: if_splits intro: emit_nil emit_closed emit_open)
  next
    case (EmitSelect i)
    with act obtain e where e: "stream p = Some e" "i < length (sending p)"
      by (auto simp: emit_select_step_def split: option.splits if_splits)
    show ?thesis
    proof (cases "is_closed (eventch e)")
      case True
      with act e EmitSelect show ?thesis
        by (intro sel_panic) (auto simp: emit_select_step_def emit_select_def chan_send_def die_def)
    next
      case False
      with act e EmitSelect show ?thesis
        by (cases "length (buf (eventch e)) < cap (eventch e)")
           (auto simp: emit_select_step_def emit_select_def chan_send_def intro: sel_sent sel_full)
    qed
  next
    case (CallSubscribe now tp h)
    with act show ?thesis
      by (cases "stream p") (auto simp: Subscribe_def subscribe_def die_def Let_def intro: sub_nil sub)
  next
    case (CallUnsubscribe sub)
    with act show ?thesis
      by (cases "stream p") (auto simp: Unsubscribe_def lift_panic_def die_def intro: unsub_nil unsub)
  next
    case (StopStep c)
    with act show ?thesis by (auto intro: stop)
  next
    case LoopDone
    with act show ?thesis
      by (cases "stream p") (auto simp: loop_done_def split: if_splits intro: loop_done)
  next
    case LoopRecv
    with act obtain e where e: "stream p = Some e" "loop p = AtSelect"
      by (auto simp: loop_recv_def split: option.splits if_splits)
    with act LoopRecv show ?thesis
      by (cases "buf (eventch e)")
         (auto simp: loop_recv_def chan_recv_def split: if_splits intro: recv recv_closed)
  next
    case LoopSnapshot
    with act obtain e evt where e: "stream p = Some e" "loop p = AtSnapshot evt"
      by (auto simp: loop_snapshot_def split: option.splits loop_pc.splits)
    with act LoopSnapshot show ?thesis
      by (cases "index_map (subs e) (topic evt) = []")
         (auto simp: loop_snapshot_def snapshot_def Let_def intro: snap_empty snap)
  next
    case LoopSpawn
    with act show ?thesis
      by (auto simp: loop_spawn_def split: option.splits loop_pc.splits list.splits intro: spawn)
  next
    case (HandlerReturn i)
    with act obtain e where e: "stream p = Some e" "i < length (invocations p)"
      by (auto simp: handler_end_def split: option.splits if_splits)
    with act HandlerReturn show ?thesis
      by (cases "wg e = 0") (auto simp: handler_end_def wg_Done_def die_def intro: wg_neg ret)
  next
    case (HandlerPanic i)
    with act obtain e where e: "stream p = Some e" "i < length (invocations p)"
      by (auto simp: handler_end_def wg_Done_def split: option.splits if_splits)
    with act HandlerPanic show ?thesis
      by (cases "wg e = 0") (auto simp: handler_end_def wg_Done_def die_def intro: wg_neg fault)
  qed
qed

section \<open>Invariants of every reachable state\<close>

lemma inv_init: "inv init_proc"
  by (simp add: inv_def init_proc_def init_def boot_def newStream_def make_chan_def flags_def)

lemma owner_ok_flags: "owner_ok fl st \<Longrightarrow> in_body (st c) \<Longrightarrow> fl = flags_at (st c)"
  unfolding owner_ok_def in_body_def by (metis stop_pc.distinct)

lemma owner_ok_waiter:
  "owner_ok fl st \<Longrightarrow> \<not> in_body (st c) \<Longrightarrow> pc = Idle \<or> pc = Blocked \<Longrightarrow> owner_ok fl (st(c := pc))"
  unfolding owner_ok_def by (metis fun_upd_apply)

lemma owner_ok_advance:
  assumes "owner_ok fl st" and "in_body (st c)" and "in_body pc"
  shows "owner_ok (flags_at pc) (st(c := pc))"
proof -
  from assms(1) obtain c0 where c0: "in_body (st c0)"
      "\<forall>c'. c' \<noteq> c0 \<longrightarrow> st c' = Idle \<or> st c' = Blocked"
    unfolding owner_ok_def by blast
  with assms(2) have "c = c0" unfolding in_body_def by (metis stop_pc.distinct)
  with c0 assms(3) show ?thesis unfolding owner_ok_def by (intro exI[of _ c]) simp
qed

lemma owner_ok_finish:
  assumes "owner_ok fl st" and "in_body (st c)"
  shows "\<not> in_body ((st(c := Returned)) c')"
proof -
  from assms(1) obtain c0 where c0: "in_body (st c0)"
      "\<forall>c'. c' \<noteq> c0 \<longrightarrow> st c' = Idle \<or> st c' = Blocked"
    unfolding owner_ok_def by blast
  with assms(2) have "c = c0" unfolding in_body_def by (metis stop_pc.distinct)
  with c0 show ?thesis by (auto simp: in_body_def)
qed

lemma owner_ok_enter: "\<forall>c. st c = Idle \<Longrightarrow> owner_ok (False, False, False) (st(c := AtStore))"
  unfolding owner_ok_def by (intro exI[of _ c]) (simp add: in_body_def)

lemma inv_body:
  assumes "inv p" and "stream p = Some e" and "in_body (stoppers p c)"
  shows "stopOnce e = Running" and "owner_ok (flags e) (stoppers p)"
    and "flags e = flags_at (stoppers p c)"
proof -
  from assms show 1: "stopOnce e = Running"
    by (cases "stopOnce e") (auto simp: inv_def in_body_def)
  with assms show 2: "owner_ok (flags e) (stoppers p)" by (simp add: inv_def)
  then show "flags e = flags_at (stoppers p c)" using assms(3) by (rule owner_ok_flags)
qed

lemma inv_stop_step:
  assumes "inv p" and "stop_step p c = Some p'"
  shows "inv p'"
  using assms(2)
proof (cases rule: stop_step_cases)
  case nil
  with assms(1) show ?thesis by (simp add: inv_def)
next
  case (enter e)
  with assms(1) show ?thesis
    by (simp add: inv_def flags_def owner_ok_enter)
next
  case (block e)
  with assms(1) have "owner_ok (flags e) (stoppers p)" by (simp add: inv_def)
  with block have "owner_ok (flags e) ((stoppers p)(c := Blocked))"
    by (intro owner_ok_waiter) (auto simp: in_body_def)
  with assms(1) block show ?thesis by (simp add: inv_def flags_def)
next
  case (skip e)
  with assms(1) show ?thesis
    by (auto simp: inv_def flags_def in_body_def)
next
  case (store e)
  then have ib: "in_body (stoppers p c)" by (simp add: in_body_def)
  note b = inv_body(1,2)[OF assms(1) store(1) ib]
  from store inv_body(3)[OF assms(1) store(1) ib] have fl: "flags e = (False, False, False)"
    by simp
  from owner_ok_advance[OF b(2) ib, of AtCancel] store
  have "owner_ok (True, False, False) ((stoppers p)(c := AtCancel))" by (simp add: in_body_def)
  with assms(1) store b fl show ?thesis by (simp add: inv_def flags_def)
next
  case (cancel e)
  then have ib: "in_body (stoppers p c)" by (simp add: in_body_def)
  note b = inv_body(1,2)[OF assms(1) cancel(1) ib]
  from cancel inv_body(3)[OF assms(1) cancel(1) ib] have fl: "flags e = (True, False, False)"
    by simp
  from owner_ok_advance[OF b(2) ib, of AtClose] cancel
  have "owner_ok (True, True, False) ((stoppers p)(c := AtClose))" by (simp add: in_body_def)
  with assms(1) cancel b fl show ?thesis by (simp add: inv_def flags_def)
next
  case (close e)
  then have ib: "in_body (stoppers p c)" by (simp add: in_body_def)
  note b = inv_body(1,2)[OF assms(1) close(1) ib]
  from close inv_body(3)[OF assms(1) close(1) ib] have fl: "flags e = (True, True, False)"
    by simp
  from owner_ok_advance[OF b(2) ib, of AtWait] close
  have "owner_ok (True, True, True) ((stoppers p)(c := AtWait))" by (simp add: in_body_def)
  with assms(1) close b fl show ?thesis by (simp add: inv_def flags_def)
next
  case (wait e)
  then have ib: "in_body (stoppers p c)" by (simp add: in_body_def)
  note b = inv_body(1,2)[OF assms(1) wait(1) ib]
  from wait inv_body(3)[OF assms(1) wait(1) ib] have fl: "flags e = (True, True, True)"
    by simp
  from owner_ok_advance[OF b(2) ib, of AtClear] wait
  have "owner_ok (True, True, True) ((stoppers p)(c := AtClear))" by (simp add: in_body_def)
  with assms(1) wait b fl show ?thesis by (simp add: inv_def flags_def)
next
  case (clear e)
  then have ib: "in_body (stoppers p c)" by (simp add: in_body_def)
  note b = inv_body(1,2)[OF assms(1) clear(1) ib]
  from clear inv_body(3)[OF assms(1) clear(1) ib] have fl: "flags e = (True, True, True)"
    by simp
  from owner_ok_finish[OF b(2) ib] clear
  have "\<forall>c'. \<not> in_body (((stoppers p)(c := Returned)) c')" by (simp add: in_body_def)
  with assms(1) clear b fl show ?thesis by (simp add: inv_def flags_def)
next
  case (unblock e)
  with assms(1) show ?thesis
    by (auto simp: inv_def flags_def in_body_def)
qed

lemma inv_step:
  assumes "inv p" and "step a p = Some p'"
  shows "inv p'"
  using assms(2)
proof (cases rule: step_cases)
  case (stop c)
  with assms(1) show ?thesis by (auto intro: inv_stop_step)
next
  case (sel_sent i e)
  with assms(1) show ?thesis by (auto simp: inv_def flags_def)
next
  case (recv e evt rest)
  with assms(1) show ?thesis by (auto simp: inv_def flags_def)
next
  case (unsub sub e)
  with assms(1) show ?thesis
    by (auto simp: inv_def flags_def unsubscribe_def Let_def split: option.splits)
next
  case (ret i e)
  with assms(1) show ?thesis by (auto simp: inv_def flags_def drop_nth_def)
next
  case (fault i e)
  with assms(1) show ?thesis by (auto simp: inv_def flags_def drop_nth_def)
qed (use assms(1) in \<open>auto simp: inv_def flags_def\<close>)

lemma exec_invariant:
  assumes "exec as p = Some q" and "I p"
    and "\<And>a p p'. I p \<Longrightarrow> step a p = Some p' \<Longrightarrow> I p'"
  shows "I q"
  using assms(1,2)
proof (induction as arbitrary: p)
  case Nil then show ?case by simp
next
  case (Cons a as)
  then show ?case using assms(3) by (auto split: option.splits)
qed

lemma exec_append: "exec (as @ bs) p = (case exec as p of None \<Rightarrow> None | Some q \<Rightarrow> exec bs q)"
  by (induction as arbitrary: p) (auto split: option.splits)

lemma inv_reachable: "exec sched init_proc = Some p \<Longrightarrow> inv p"
  by (erule exec_invariant[where I = inv]) (rule inv_init, rule inv_step)

lemma inv_closed_chan:
  assumes "inv p" and "stream p = Some e" and "is_closed (eventch e)"
  shows "closed e"
proof (cases "stopOnce e")
  case Fresh
  with assms show ?thesis by (simp add: inv_def flags_def)
next
  case Running
  with assms obtain c where "in_body (stoppers p c)" "flags e = flags_at (stoppers p c)"
    by (auto simp: inv_def owner_ok_def)
  with assms(3) show ?thesis by (cases "stoppers p c") (auto simp: flags_def in_body_def)
next
  case Finished
  with assms show ?thesis by (simp add: inv_def flags_def)
qed

lemma subscribe_no_empty:
  "no_empty (subs e) \<Longrightarrow> no_empty ((subs e)(tp \<mapsto> index_map (subs e) tp @ [sub]))"
  unfolding no_empty_def by simp

lemma unsubscribe_no_empty:
  "no_empty (subs e) \<Longrightarrow> no_empty (subs (unsubscribe e sub))"
  unfolding no_empty_def
  by (auto simp: unsubscribe_def Let_def index_map_def split: option.splits if_splits)

lemma no_empty_step:
  assumes "no_empty (registry p)" and "step a p = Some p'"
  shows "no_empty (registry p')"
  using assms(2)
proof (cases rule: step_cases)
  case (sub now tp h e)
  with assms(1) show ?thesis by (simp add: registry_def subscribe_no_empty)
next
  case (unsub sub e)
  with assms(1) show ?thesis by (simp add: registry_def unsubscribe_no_empty)
next
  case (stop c)
  from stop(2) assms(1) show ?thesis
    by (cases rule: stop_step_cases) (auto simp: registry_def no_empty_def)
qed (use assms(1) in \<open>auto simp: registry_def\<close>)

lemma no_empty_init: "no_empty (registry init_proc)"
  by (simp add: registry_def no_empty_def init_proc_def init_def boot_def newStream_def)

lemma fill_queue:
  assumes "stream p = Some e" and "\<not> closed e" and "\<not> is_closed (eventch e)"
    and "crashed p = None" and "sending p = []"
    and "length (buf (eventch e)) + n \<le> cap (eventch e)"
  shows "exec (emit_actions tp v n) p
           = Some (p\<lparr>stream := Some (e\<lparr>eventch := (eventch e)\<lparr>buf := buf (eventch e)
                          @ replicate n \<lparr>topic = tp, message = v\<rparr>\<rparr>\<rparr>)\<rparr>)"
  using assms
proof (induction n arbitrary: p e)
  case 0
  then show ?case by (simp add: emit_actions_def)
next
  case (Suc n)
  let ?evt = "\<lparr>topic = tp, message = v\<rparr>"
  let ?e1 = "e\<lparr>eventch := (eventch e)\<lparr>buf := buf (eventch e) @ [?evt]\<rparr>\<rparr>"
  let ?p1 = "p\<lparr>stream := Some ?e1\<rparr>"
  from Suc.prems have 1: "exec [CallEmit tp v, EmitSelect 0] p = Some ?p1"
    by (simp add: step_def call_emit_def emit_select_step_def emit_select_def chan_send_def drop_nth_def)
  from Suc.prems have 2: "exec (emit_actions tp v n) ?p1
     = Some (?p1\<lparr>stream := Some (?e1\<lparr>eventch := (eventch ?e1)\<lparr>buf := buf (eventch ?e1)
                          @ replicate n ?evt\<rparr>\<rparr>)\<rparr>)"
    by (intro Suc.IH) simp_all
  have 3: "emit_actions tp v (Suc n) = [CallEmit tp v, EmitSelect 0] @ emit_actions tp v n"
    by (simp add: emit_actions_def)
  show ?case unfolding 3 exec_append 1 using 2 by (simp add: replicate_app_Cons_same)
qed

lemma ids_inv_init: "ids_inv init_proc"
  by (simp add: ids_inv_def init_proc_def init_def boot_def)

lemma ids_inv_step:
  assumes "ids_inv p" and "step a p = Some p'"
  shows "ids_inv p'"
  using assms(2)
proof (cases rule: step_cases)
  case (sub now tp h e)
  with assms(1) show ?thesis by (simp add: ids_inv_def)
next
  case (stop c)
  from stop(2) assms(1) show ?thesis
    by (cases rule: stop_step_cases) (auto simp: ids_inv_def)
qed (use assms(1) in \<open>auto simp: ids_inv_def\<close>)

lemma ids_inv_reachable: "exec sched init_proc = Some p \<Longrightarrow> ids_inv p"
  by (erule exec_invariant[where I = ids_inv]) (rule ids_inv_init, rule ids_inv_step)

lemma of_nat_less_64:
  "a < b \<Longrightarrow> b < 2 ^ 64 \<Longrightarrow> (of_nat a :: uint64) < of_nat b"
  by (simp add: of_nat_word_less_iff take_bit_nat_eq_self)

lemma issued_ids_sorted:
  assumes "ids_inv p" and "length (issued p) < 2 ^ 64"
  shows "sorted_wrt (<) (map ID (issued p))"
proof -
  have "sorted_wrt (<) (map (\<lambda>k. of_nat (Suc k) :: uint64) [0..<length (issued p)])"
    unfolding sorted_wrt_map
  proof (rule sorted_wrt_mono_rel[of _ "(<)"])
    show "sorted_wrt (<) [0..<length (issued p)]" by simp
  next
    fix x y assume "x \<in> set [0..<length (issued p)]" "y \<in> set [0..<length (issued p)]" "x < y"
    with assms(2) have "Suc x < Suc y" "Suc y < 2 ^ 64" by auto
    then show "(of_nat (Suc x) :: uint64) < of_nat (Suc y)" by (rule of_nat_less_64)
  qed
  with assms(1) show ?thesis by (simp only: ids_inv_def)
qed

lemma exec_subscribes:
  assumes "stream p \<noteq> None" and "crashed p = None"
  shows "\<exists>q. exec (replicate n (CallSubscribe now tp h)) p = Some q
              \<and> length (issued q) = length (issued p) + n \<and> stream q \<noteq> None \<and> crashed q = None"
  using assms
proof (induction n arbitrary: p)
  case 0
  then show ?case by simp
next
  case (Suc n)
  from Suc.prems obtain e where e: "stream p = Some e" by auto
  let ?p1 = "snd (projr (Subscribe p now tp h))"
  from e Suc.prems have 1: "step (CallSubscribe now tp h) p = Some ?p1"
    and 2: "stream ?p1 \<noteq> None" "crashed ?p1 = None" "length (issued ?p1) = Suc (length (issued p))"
    by (simp_all add: step_def Subscribe_def subscribe_def Let_def)
  from Suc.IH[OF 2(1,2)] obtain q where "exec (replicate n (CallSubscribe now tp h)) ?p1 = Some q"
     "length (issued q) = length (issued ?p1) + n" "stream q \<noteq> None" "crashed q = None"
    by auto
  with 1 2 show ?case by simp
qed





lemma inv_stream: "inv p \<Longrightarrow> \<exists>e. stream p = Some e"
  by (auto simp: inv_def split: option.splits)

lemma inv_returned:
  assumes "inv p" and "stream p = Some e" and "stoppers p c = Returned"
  shows "stopOnce e = Finished"
proof (cases "stopOnce e")
  case Fresh
  with assms show ?thesis by (auto simp: inv_def)
next
  case Running
  with assms have "owner_ok (flags e) (stoppers p)" by (simp add: inv_def)
  with assms(3) show ?thesis unfolding owner_ok_def in_body_def by (metis stop_pc.distinct)
qed











lemma loop_exited_step:
  assumes "loop p = Exited" and "step a p = Some p'"
  shows "loop p' = Exited"
  using assms(2)
proof (cases rule: step_cases)
  case (stop c)
  from stop(2) assms(1) show ?thesis by (cases rule: stop_step_cases) auto
qed (use assms(1) in auto)

lemma loop_exited_disabled:
  assumes "loop p = Exited"
  shows "step LoopRecv p = None" and "step LoopSnapshot p = None" and "step LoopSpawn p = None"
  using assms
  by (auto simp: step_def loop_recv_def loop_snapshot_def loop_spawn_def split: option.splits)


lemma one_running_reached:
  "exec [CallSubscribe 5 ''t'' 1, CallEmit ''t'' 9, EmitSelect 0, LoopRecv, LoopSnapshot, LoopSpawn]
     init_proc = Some one_running"
  by (simp add: one_running_def step_def Subscribe_def subscribe_def call_emit_def emit_select_step_def
      emit_select_def chan_send_def loop_recv_def chan_recv_def loop_snapshot_def snapshot_def
      loop_spawn_def index_map_def drop_nth_def Let_def
      init_proc_def init_def boot_def newStream_def make_chan_def)

lemmas eval_defs = step_def Subscribe_def subscribe_def call_emit_def emit_select_step_def
  emit_select_def chan_send_def loop_done_def loop_recv_def chan_recv_def loop_snapshot_def snapshot_def
  loop_spawn_def index_map_def drop_nth_def Let_def stop_step_def stop_store_def stop_cancel_def
  stop_close_def stop_wait_def stop_clear_def chan_close_def
  init_proc_def init_def boot_def newStream_def make_chan_def

lemma loop_exited_reaches:
  "exec as p = Some q \<Longrightarrow> loop p = Exited \<Longrightarrow> loop q = Exited"
  by (erule exec_invariant[where I = "\<lambda>p. loop p = Exited"]) (assumption, rule loop_exited_step)



lemma new_subs_Topic: "s \<in> set (new_subs ctr tp hs) \<Longrightarrow> Topic s = tp"
  by (induction ctr tp hs rule: new_subs.induct) auto






lemma wf_nil: "wf_reg R \<Longrightarrow> wf_slice (hstore R) nil_slice"
  by (simp add: wf_reg_def wf_slice_def nil_slice_def)

lemma wf_hindex: "wf_reg R \<Longrightarrow> wf_slice (hstore R) (hindex (hsubs R) tp)"
  by (cases "hsubs R tp") (auto simp: hindex_def wf_nil, simp add: wf_reg_def)

lemma append1_elems:
  assumes "wf_slice st s" and "grows g" and "append1 g z st s x = (s', st')"
  shows "elems st' s' = elems st s @ [x]"
  using assms
  by (auto simp: append1_def elems_def wf_slice_def Let_def take_Suc_conv_app_nth split: if_splits)

lemma append1_frame:
  assumes "append1 g z st s x = (s', st')" and "a \<noteq> sl_ptr s" and "a < fresh st"
  shows "arrays st' a = arrays st a"
  using assms by (auto simp: append1_def Let_def split: if_splits)

lemma append1_wf:
  assumes "wf_slice st s" and "grows g" and "append1 g z st s x = (s', st')"
  shows "wf_slice st' s'" and "fresh st \<le> fresh st'" and "0 < sl_len s'"
    and "sl_ptr s' = sl_ptr s \<and> sl_len s < sl_cap s \<or> sl_ptr s' = fresh st"
proof -
  from assms(2) have g: "sl_len s + 1 \<le> g (sl_cap s) (sl_len s + 1)" by (simp add: grows_def)
  from assms(1,3) g show "wf_slice st' s'"
    by (auto simp: append1_def wf_slice_def elems_def Let_def split: if_splits)
  from assms(3) show "fresh st \<le> fresh st'" "0 < sl_len s'"
    "sl_ptr s' = sl_ptr s \<and> sl_len s < sl_cap s \<or> sl_ptr s' = fresh st"
    by (auto simp: append1_def Let_def split: if_splits)
qed

lemma delete_func_elems:
  assumes "wf_slice st s" and "delete_func z st s del = (s', st')"
  shows "elems st' s' = filter (\<lambda>x. \<not> del x) (elems st s)"
  using assms by (auto simp: delete_func_def elems_def Let_def)

lemma delete_func_frame:
  assumes "delete_func z st s del = (s', st')" and "a \<noteq> sl_ptr s"
  shows "arrays st' a = arrays st a"
  using assms by (auto simp: delete_func_def Let_def)

lemma delete_func_wf:
  assumes "wf_slice st s" and "delete_func z st s del = (s', st')"
  shows "wf_slice st' s'" and "fresh st' = fresh st" and "sl_ptr s' = sl_ptr s"
    and "sl_len s' \<le> sl_len s"
proof -
  let ?kept = "filter (\<lambda>x. \<not> del x) (elems st s)"
  from assms(1) have l: "length (elems st s) = sl_len s" by (simp add: elems_def wf_slice_def)
  have k: "length ?kept \<le> sl_len s" using length_filter_le[of _ "elems st s"] l by simp
  from assms(2) have s': "s' = s\<lparr>sl_len := length ?kept\<rparr>"
    and st': "st' = st\<lparr>arrays := (arrays st)(sl_ptr s :=
                 ?kept @ replicate (sl_len s - length ?kept) z @ drop (sl_len s) (arrays st (sl_ptr s)))\<rparr>"
    by (simp_all add: delete_func_def Let_def)
  from assms(1) k show "wf_slice st' s'" unfolding s' st' by (simp add: wf_slice_def)
  show "fresh st' = fresh st" "sl_ptr s' = sl_ptr s" unfolding s' st' by simp_all
  from k show "sl_len s' \<le> sl_len s" unfolding s' by simp
qed

lemma append_to_nil_elems:
  assumes "wf_slice st src" and "grows g" and "append_to_nil g z st src = (snap, st')"
  shows "elems st' snap = elems st src"
  using assms
  by (auto simp: append_to_nil_def elems_def nil_slice_def wf_slice_def Let_def split: if_splits)

lemma append_to_nil_frame:
  assumes "append_to_nil g z st src = (snap, st')" and "a < fresh st"
  shows "arrays st' a = arrays st a"
  using assms by (auto simp: append_to_nil_def Let_def split: if_splits)

lemma elems_nil [simp]: "elems st nil_slice = []"
  by (simp add: elems_def nil_slice_def)

lemma abs_index: "index_map (abs_reg R) tp = elems (hstore R) (hindex (hsubs R) tp)"
  by (simp add: abs_reg_def index_map_def hindex_def split: option.splits)

lemma wf_regD:
  assumes "wf_reg R" and "hsubs R t = Some s"
  shows "wf_slice (hstore R) s" and "sl_ptr s \<noteq> 0" and "0 < sl_len s"
    and "hsubs R t' = Some s' \<Longrightarrow> t' \<noteq> t \<Longrightarrow> sl_ptr s' \<noteq> sl_ptr s"
  using assms unfolding wf_reg_def by blast+

lemma hindex_cases:
  obtains (absent) "hsubs R tp = None" "hindex (hsubs R) tp = nil_slice"
  | (present) s where "hsubs R tp = Some s" "hindex (hsubs R) tp = s"
  by (cases "hsubs R tp") (auto simp: hindex_def)

lemma hsubscribe_props:
  assumes wf: "wf_reg R" and g: "grows g"
  shows "wf_reg (hsubscribe g z R sub)"
    and "abs_reg (hsubscribe g z R sub) = list_op (abs_reg R) (OpSubscribe sub)"
    and "unshared R a \<Longrightarrow> unshared (hsubscribe g z R sub) a
          \<and> arrays (hstore (hsubscribe g z R sub)) a = arrays (hstore R) a"
proof -
  let ?tp = "Topic sub"
  let ?s = "hindex (hsubs R) ?tp"
  let ?st = "hstore R"
  obtain s' st' where ap: "append1 g z ?st ?s sub = (s', st')" by (cases "append1 g z ?st ?s sub")
  then have R': "hsubscribe g z R sub = \<lparr>hsubs = (hsubs R)(?tp \<mapsto> s'), hstore = st'\<rparr>"
    by (simp add: hsubscribe_def)
  note ws = wf_hindex[OF wf, of ?tp]
  note el = append1_elems[OF ws g ap]
  note w' = append1_wf[OF ws g ap]
  have other: "arrays st' (sl_ptr s2) = arrays ?st (sl_ptr s2)"
    if "hsubs R t = Some s2" "t \<noteq> ?tp" for t s2
  proof (rule append1_frame[OF ap])
    show "sl_ptr s2 < fresh ?st" using wf_regD(1)[OF wf that(1)] by (simp add: wf_slice_def)
    show "sl_ptr s2 \<noteq> sl_ptr ?s"
    proof (cases rule: hindex_cases[of R ?tp])
      case absent
      with wf_regD(2)[OF wf that(1)] show ?thesis by (simp add: nil_slice_def)
    next
      case (present s)
      with wf_regD(4)[OF wf present(1) that(1) that(2)] show ?thesis by simp
    qed
  qed
  have zero: "arrays st' 0 = []"
  proof -
    have "0 \<noteq> sl_ptr ?s \<or> \<not> sl_len ?s < sl_cap ?s"
    proof (cases rule: hindex_cases[of R ?tp])
      case absent
      then show ?thesis by (simp add: nil_slice_def)
    next
      case (present s)
      with wf_regD(2)[OF wf present(1)] show ?thesis by simp
    qed
    moreover from wf have "arrays ?st 0 = []" "0 < fresh ?st" by (simp_all add: wf_reg_def)
    ultimately show ?thesis using ap by (auto simp: append1_def Let_def split: if_splits)
  qed
  have ptr': "sl_ptr s' \<noteq> 0"
  proof -
    from w'(4) show ?thesis
    proof
      assume a: "sl_ptr s' = sl_ptr ?s \<and> sl_len ?s < sl_cap ?s"
      show ?thesis
      proof (cases rule: hindex_cases[of R ?tp])
        case absent
        with a show ?thesis by (simp add: nil_slice_def)
      next
        case (present s)
        with a wf_regD(2)[OF wf present(1)] show ?thesis by simp
      qed
    next
      assume "sl_ptr s' = fresh ?st"
      with wf show ?thesis by (simp add: wf_reg_def)
    qed
  qed
  have distinct': "sl_ptr s2 \<noteq> sl_ptr s'" if "hsubs R t = Some s2" "t \<noteq> ?tp" for t s2
  proof -
    from w'(4) show ?thesis
    proof
      assume a: "sl_ptr s' = sl_ptr ?s \<and> sl_len ?s < sl_cap ?s"
      show ?thesis
      proof (cases rule: hindex_cases[of R ?tp])
        case absent
        with a show ?thesis by (simp add: nil_slice_def)
      next
        case (present s)
        with a wf_regD(4)[OF wf present(1) that(1) that(2)] show ?thesis by simp
      qed
    next
      assume "sl_ptr s' = fresh ?st"
      with wf_regD(1)[OF wf that(1)] show ?thesis by (simp add: wf_slice_def)
    qed
  qed
  show "wf_reg (hsubscribe g z R sub)"
    unfolding wf_reg_def R'
  proof (intro conjI allI impI; simp only: hreg.simps)
    show "arrays st' 0 = []" by (rule zero)
    show "0 < fresh st'" using wf w'(2) by (simp add: wf_reg_def)
  next
    fix t s2 assume h: "((hsubs R)(?tp \<mapsto> s')) t = Some s2"
    show "wf_slice st' s2"
    proof (cases "t = ?tp")
      case True with h w'(1) show ?thesis by simp
    next
      case False
      with h have r: "hsubs R t = Some s2" by simp
      from wf_regD(1)[OF wf r] other[OF r False] w'(2) show ?thesis by (simp add: wf_slice_def)
    qed
    show "sl_ptr s2 \<noteq> 0"
    proof (cases "t = ?tp")
      case True with h ptr' show ?thesis by simp
    next
      case False
      with h wf_regD(2)[OF wf, of t s2] show ?thesis by simp
    qed
    show "0 < sl_len s2"
    proof (cases "t = ?tp")
      case True with h w'(3) show ?thesis by simp
    next
      case False
      with h wf_regD(3)[OF wf, of t s2] show ?thesis by simp
    qed
  next
    fix t s2 t' s3
    assume h: "((hsubs R)(?tp \<mapsto> s')) t = Some s2"
      and h': "((hsubs R)(?tp \<mapsto> s')) t' = Some s3 \<and> t' \<noteq> t"
    show "sl_ptr s3 \<noteq> sl_ptr s2"
    proof (cases "t = ?tp")
      case True
      with h h' have "s2 = s'" "hsubs R t' = Some s3" "t' \<noteq> ?tp" by auto
      with distinct' show ?thesis by simp
    next
      case False
      with h have r: "hsubs R t = Some s2" by simp
      show ?thesis
      proof (cases "t' = ?tp")
        case True
        with h' have "s3 = s'" by simp
        with distinct'[OF r False] show ?thesis by simp
      next
        case False
        with h' wf_regD(4)[OF wf r, of t' s3] show ?thesis by simp
      qed
    qed
  qed
  show "abs_reg (hsubscribe g z R sub) = list_op (abs_reg R) (OpSubscribe sub)"
  proof
    fix t
    show "abs_reg (hsubscribe g z R sub) t = list_op (abs_reg R) (OpSubscribe sub) t"
    proof (cases "t = ?tp")
      case True
      then show ?thesis unfolding R' by (simp add: abs_reg_def el abs_index[unfolded abs_reg_def])
    next
      case False
      then show ?thesis unfolding R'
        using other[of t] by (cases "hsubs R t") (simp_all add: abs_reg_def elems_def)
    qed
  qed
  show "unshared (hsubscribe g z R sub) a
          \<and> arrays (hstore (hsubscribe g z R sub)) a = arrays (hstore R) a" if u: "unshared R a"
  proof -
    from u have lt: "a < fresh ?st" and ns: "\<And>t s. hsubs R t = Some s \<Longrightarrow> sl_ptr s \<noteq> a"
      by (auto simp: unshared_def)
    have ne: "a \<noteq> sl_ptr ?s \<or> \<not> sl_len ?s < sl_cap ?s"
    proof (cases rule: hindex_cases[of R ?tp])
      case absent
      then show ?thesis by (simp add: nil_slice_def)
    next
      case (present s)
      with ns[OF present(1)] show ?thesis by simp
    qed
    have fr: "arrays st' a = arrays ?st a"
      using ap ne lt by (auto simp: append1_def Let_def split: if_splits)
    have "sl_ptr s' \<noteq> a" using w'(4) ne lt by auto
    with ns lt w'(2) have "unshared (hsubscribe g z R sub) a"
      unfolding R' by (auto simp: unshared_def)
    with fr show ?thesis unfolding R' by simp
  qed
qed

lemma list_unsubscribe_absent:
  "m (Topic sub) = None \<Longrightarrow> list_op m (OpUnsubscribe sub) = m"
  by (simp add: unsubscribe_def)

lemma list_unsubscribe_present:
  "m (Topic sub) = Some xs \<Longrightarrow>
     list_op m (OpUnsubscribe sub)
       = (if filter (\<lambda>x. ID x \<noteq> ID sub) xs = [] then m(Topic sub := None)
          else m(Topic sub \<mapsto> filter (\<lambda>x. ID x \<noteq> ID sub) xs))"
  by (simp add: unsubscribe_def DeleteFunc_def index_map_def Let_def)

lemma hunsubscribe_props:
  assumes wf: "wf_reg R"
  shows "wf_reg (hunsubscribe z R sub)"
    and "abs_reg (hunsubscribe z R sub) = list_op (abs_reg R) (OpUnsubscribe sub)"
    and "unshared R a \<Longrightarrow> unshared (hunsubscribe z R sub) a
          \<and> arrays (hstore (hunsubscribe z R sub)) a = arrays (hstore R) a"
proof -
  let ?tp = "Topic sub"
  let ?st = "hstore R"
  let ?del = "\<lambda>x. ID x = ID sub"
  show "wf_reg (hunsubscribe z R sub)"
    and "abs_reg (hunsubscribe z R sub) = list_op (abs_reg R) (OpUnsubscribe sub)"
    and "unshared R a \<Longrightarrow> unshared (hunsubscribe z R sub) a
          \<and> arrays (hstore (hunsubscribe z R sub)) a = arrays (hstore R) a"
  proof (atomize (full), cases "hsubs R ?tp")
    case None
    then have "hunsubscribe z R sub = R" by (simp add: hunsubscribe_def)
    moreover from None have "list_op (abs_reg R) (OpUnsubscribe sub) = abs_reg R"
      by (intro list_unsubscribe_absent) (simp add: abs_reg_def)
    ultimately show "wf_reg (hunsubscribe z R sub)
      \<and> abs_reg (hunsubscribe z R sub) = list_op (abs_reg R) (OpUnsubscribe sub)
      \<and> (unshared R a \<longrightarrow> unshared (hunsubscribe z R sub) a
          \<and> arrays (hstore (hunsubscribe z R sub)) a = arrays (hstore R) a)"
      using wf by simp
  next
    case (Some s)
    obtain s' st' where df: "delete_func z ?st s ?del = (s', st')"
      by (cases "delete_func z ?st s ?del")
    note ws = wf_regD(1)[OF wf Some]
    note el = delete_func_elems[OF ws df]
    note w' = delete_func_wf[OF ws df]
    have len': "sl_len s' = length (filter (\<lambda>x. \<not> ?del x) (elems ?st s))"
      using df by (auto simp: delete_func_def Let_def)
    let ?R1 = "\<lparr>hsubs = (hsubs R)(?tp \<mapsto> s'), hstore = st'\<rparr>"
    have R': "hunsubscribe z R sub
        = (if sl_len s' = 0 then \<lparr>hsubs = (hsubs R)(?tp := None), hstore = st'\<rparr> else ?R1)"
      using Some df by (simp add: hunsubscribe_def hindex_def)
    have other: "arrays st' (sl_ptr s2) = arrays ?st (sl_ptr s2)"
      if "hsubs R t = Some s2" "t \<noteq> ?tp" for t s2
      using delete_func_frame[OF df] wf_regD(4)[OF wf Some that] by simp
    have zero: "arrays st' 0 = []"
      using delete_func_frame[OF df, of 0] wf_regD(2)[OF wf Some] wf by (simp add: wf_reg_def)
    have wf_other: "wf_slice st' s2" if "hsubs R t = Some s2" "t \<noteq> ?tp" for t s2
      using wf_regD(1)[OF wf that(1)] other[OF that] w'(2) by (simp add: wf_slice_def)
    have 1: "wf_reg (hunsubscribe z R sub)"
      unfolding wf_reg_def
    proof (intro conjI allI impI)
      show "arrays (hstore (hunsubscribe z R sub)) 0 = []" unfolding R' using zero by simp
      show "0 < fresh (hstore (hunsubscribe z R sub))"
        unfolding R' using wf w'(2) by (simp add: wf_reg_def)
    next
      fix t s2 assume h: "hsubs (hunsubscribe z R sub) t = Some s2"
      then have c: "t = ?tp \<and> s2 = s' \<and> sl_len s' \<noteq> 0 \<or> t \<noteq> ?tp \<and> hsubs R t = Some s2"
        unfolding R' by (auto split: if_splits)
      have st: "hstore (hunsubscribe z R sub) = st'" unfolding R' by simp
      from c show "wf_slice (hstore (hunsubscribe z R sub)) s2"
        unfolding st using w'(1) wf_other by auto
      from c show "sl_ptr s2 \<noteq> 0"
        using w'(3) wf_regD(2)[OF wf Some] wf_regD(2)[OF wf, of t s2] by auto
      from c show "0 < sl_len s2" using wf_regD(3)[OF wf, of t s2] by auto
      fix t' s3 assume h': "hsubs (hunsubscribe z R sub) t' = Some s3 \<and> t' \<noteq> t"
      then have c': "t' = ?tp \<and> s3 = s' \<or> t' \<noteq> ?tp \<and> hsubs R t' = Some s3"
        unfolding R' by (auto split: if_splits)
      from c c' h' show "sl_ptr s3 \<noteq> sl_ptr s2"
        using w'(3) wf_regD(4)[OF wf Some, of t' s3] wf_regD(4)[OF wf _ Some, of t s2]
          wf_regD(4)[OF wf, of t s2 t' s3]
        by auto
    qed
    have m: "abs_reg R ?tp = Some (elems ?st s)" using Some by (simp add: abs_reg_def)
    let ?ys = "filter (\<lambda>x. ID x \<noteq> ID sub) (elems ?st s)"
    have 2: "abs_reg (hunsubscribe z R sub) = list_op (abs_reg R) (OpUnsubscribe sub)"
      unfolding list_unsubscribe_present[where m = "abs_reg R" and sub = sub, OF m]
    proof
      fix t
      show "abs_reg (hunsubscribe z R sub) t
          = (if ?ys = [] then (abs_reg R)(?tp := None) else (abs_reg R)(?tp \<mapsto> ?ys)) t"
      proof (cases "t = ?tp")
        case True
        with el len' show ?thesis unfolding R' by (simp add: abs_reg_def)
      next
        case False
        have "abs_reg (hunsubscribe z R sub) t = abs_reg R t"
          unfolding R' using False other[of t]
          by (cases "hsubs R t") (simp_all add: abs_reg_def elems_def)
        with False show ?thesis by simp
      qed
    qed
    have 3: "unshared (hunsubscribe z R sub) a
          \<and> arrays (hstore (hunsubscribe z R sub)) a = arrays (hstore R) a" if u: "unshared R a"
    proof -
      from u have lt: "a < fresh ?st" and ns: "\<And>t s. hsubs R t = Some s \<Longrightarrow> sl_ptr s \<noteq> a"
        by (auto simp: unshared_def)
      from ns[OF Some] have "arrays st' a = arrays ?st a" using delete_func_frame[OF df, of a] by simp
      moreover have "unshared (hunsubscribe z R sub) a"
        unfolding R' using ns lt w'(2,3) ns[OF Some] by (auto simp: unshared_def)
      ultimately show ?thesis unfolding R' by simp
    qed
    from 1 2 3 show "wf_reg (hunsubscribe z R sub)
      \<and> abs_reg (hunsubscribe z R sub) = list_op (abs_reg R) (OpUnsubscribe sub)
      \<and> (unshared R a \<longrightarrow> unshared (hunsubscribe z R sub) a
          \<and> arrays (hstore (hunsubscribe z R sub)) a = arrays (hstore R) a)"
      by blast
  qed
qed

lemma hclear_props:
  assumes wf: "wf_reg R"
  shows "wf_reg (hclear R)"
    and "abs_reg (hclear R) = list_op (abs_reg R) OpClear"
    and "unshared R a \<Longrightarrow> unshared (hclear R) a \<and> arrays (hstore (hclear R)) a = arrays (hstore R) a"
  using wf by (auto simp: wf_reg_def hclear_def abs_reg_def stop_clear_def unshared_def)

lemma apply_op_props:
  assumes "wf_reg R" and "grows g"
  shows "wf_reg (apply_op g z R op)"
    and "abs_reg (apply_op g z R op) = list_op (abs_reg R) op"
    and "unshared R a \<Longrightarrow> unshared (apply_op g z R op) a
           \<and> arrays (hstore (apply_op g z R op)) a = arrays (hstore R) a"
  using hsubscribe_props[OF assms, where z = z] hunsubscribe_props[OF assms(1), where z = z]
    hclear_props[OF assms(1)]
  by (cases op; simp)+

lemma apply_ops_props:
  assumes "wf_reg R" and "grows g"
  shows "wf_reg (apply_ops g z R ops)
       \<and> abs_reg (apply_ops g z R ops) = foldl list_op (abs_reg R) ops
       \<and> (unshared R a \<longrightarrow> unshared (apply_ops g z R ops) a
             \<and> arrays (hstore (apply_ops g z R ops)) a = arrays (hstore R) a)"
  using assms(1)
proof (induction ops arbitrary: R)
  case Nil
  then show ?case by (simp add: apply_ops_def)
next
  case (Cons op ops)
  note p = apply_op_props[OF Cons.prems assms(2), where z = z and op = op]
  from Cons.IH[OF p(1)] p(2) p(3)[of a] show ?case by (simp add: apply_ops_def)
qed

lemma wf_hnew: "wf_reg hnew"
  by (simp add: wf_reg_def hnew_def)

lemma wf_reg_frame:
  assumes wf: "wf_reg R" and fr: "\<And>a. a < fresh (hstore R) \<Longrightarrow> arrays st' a = arrays (hstore R) a"
    and f: "fresh (hstore R) \<le> fresh st'"
  shows "wf_reg (R\<lparr>hstore := st'\<rparr>)"
  unfolding wf_reg_def
proof (intro conjI allI impI)
  from wf have z: "arrays (hstore R) 0 = []" "0 < fresh (hstore R)" by (simp_all add: wf_reg_def)
  with fr[of 0] f show "arrays (hstore (R\<lparr>hstore := st'\<rparr>)) 0 = []"
    "0 < fresh (hstore (R\<lparr>hstore := st'\<rparr>))" by simp_all
next
  fix t s assume "hsubs (R\<lparr>hstore := st'\<rparr>) t = Some s"
  then have h: "hsubs R t = Some s" by simp
  note d = wf_regD[OF wf h]
  from d(1) fr[of "sl_ptr s"] f show "wf_slice (hstore (R\<lparr>hstore := st'\<rparr>)) s"
    by (simp add: wf_slice_def)
  from d(2,3) show "sl_ptr s \<noteq> 0" "0 < sl_len s" by simp_all
  fix t' s' assume "hsubs (R\<lparr>hstore := st'\<rparr>) t' = Some s' \<and> t' \<noteq> t"
  with d(4)[of t' s'] show "sl_ptr s' \<noteq> sl_ptr s" by simp
qed

lemma hsnapshot_props:
  assumes "wf_reg R" and "grows g" and "hsnapshot g z R tp = (snap, R1)"
  shows "wf_reg R1" and "abs_reg R1 = abs_reg R"
    and "elems (hstore R1) snap = index_map (abs_reg R) tp"
    and "sl_len snap \<le> length (arrays (hstore R1) (sl_ptr snap))"
    and "sl_len snap = 0 \<or> unshared R1 (sl_ptr snap)"
proof -
  let ?src = "hindex (hsubs R) tp"
  obtain st' where ap: "append_to_nil g z (hstore R) ?src = (snap, st')" and R1: "R1 = R\<lparr>hstore := st'\<rparr>"
    using assms(3) by (auto simp: hsnapshot_def split: prod.splits)
  note ws = wf_hindex[OF assms(1), of tp]
  note fr = append_to_nil_frame[OF ap]
  from assms(2) have g: "sl_len ?src \<le> g 0 (sl_len ?src)" by (simp add: grows_def)
  have lt: "sl_ptr s < fresh (hstore R)" if "hsubs R t = Some s" for t s
    using wf_regD(1)[OF assms(1) that] by (simp add: wf_slice_def)
  have f: "fresh (hstore R) \<le> fresh st'"
    using ap by (auto simp: append_to_nil_def Let_def split: if_splits)
  show "wf_reg R1"
    unfolding R1 using assms(1) fr f by (rule wf_reg_frame)
  show "abs_reg R1 = abs_reg R"
  proof
    fix t
    show "abs_reg R1 t = abs_reg R t"
    proof (cases "hsubs R t")
      case None
      then show ?thesis unfolding R1 by (simp add: abs_reg_def)
    next
      case (Some s)
      with fr[OF lt[OF Some]] show ?thesis unfolding R1 by (simp add: abs_reg_def elems_def)
    qed
  qed
  show "elems (hstore R1) snap = index_map (abs_reg R) tp"
    unfolding R1 using append_to_nil_elems[OF ws assms(2) ap] by (simp add: abs_index)
  show "sl_len snap \<le> length (arrays (hstore R1) (sl_ptr snap))"
    unfolding R1 using ap ws g
    by (auto simp: append_to_nil_def nil_slice_def elems_def wf_slice_def Let_def split: if_splits)
  show "sl_len snap = 0 \<or> unshared R1 (sl_ptr snap)"
    unfolding R1 using ap
    by (auto simp: append_to_nil_def nil_slice_def unshared_def Let_def split: if_splits dest: lt)
qed

lemma range_reads_unshared:
  assumes "grows g"
  shows "wf_reg R \<Longrightarrow> unshared R (sl_ptr snap) \<Longrightarrow> i + length opss \<le> length (arrays (hstore R) (sl_ptr snap))
     \<Longrightarrow> range_reads g z R snap i opss = take (length opss) (drop i (arrays (hstore R) (sl_ptr snap)))"
proof (induction opss arbitrary: R i)
  case Nil
  then show ?case by simp
next
  case (Cons ops opss)
  let ?R' = "apply_ops g z R ops"
  let ?a = "arrays (hstore R) (sl_ptr snap)"
  from apply_ops_props[OF Cons.prems(1) assms, where z = z and ops = ops and a = "sl_ptr snap"]
    Cons.prems(2)
  have p: "wf_reg ?R'" "unshared ?R' (sl_ptr snap)" "arrays (hstore ?R') (sl_ptr snap) = ?a"
    by simp_all
  from Cons.prems(3) have i: "i < length ?a" by simp
  have "range_reads g z ?R' snap (Suc i) opss = take (length opss) (drop (Suc i) ?a)"
    using Cons.IH[OF p(1,2), of "Suc i"] Cons.prems(3) p(3) by simp
  then have "range_reads g z R snap i (ops # opss) = ?a ! i # take (length opss) (drop (Suc i) ?a)"
    by (simp add: p(3) Let_def)
  also have "\<dots> = take (length (ops # opss)) (drop i ?a)"
    using i by (simp add: Cons_nth_drop_Suc[symmetric])
  finally show ?case .
qed

lemma abs_hnew: "abs_reg hnew = Map.empty"
  by (simp add: abs_reg_def hnew_def)

lemma list_op_index:
  "set (index_map (list_op m op) tp)
     \<subseteq> set (index_map m tp) \<union> (case op of OpSubscribe s \<Rightarrow> {s} | _ \<Rightarrow> {})"
proof (cases op)
  case (OpSubscribe s)
  then show ?thesis by (auto simp: index_map_def)
next
  case (OpUnsubscribe s)
  show ?thesis
  proof (cases "m (Topic s)")
    case None
    show ?thesis unfolding OpUnsubscribe list_unsubscribe_absent[where m = m and sub = s, OF None]
      by simp
  next
    case (Some xs)
    show ?thesis unfolding OpUnsubscribe list_unsubscribe_present[where m = m and sub = s, OF Some]
      using Some by (auto simp: index_map_def split: if_splits)
  qed
next
  case OpClear
  then show ?thesis by (simp add: stop_clear_def index_map_def)
qed

lemma unsubscribed_stays_out:
  assumes "\<forall>s \<in> set (index_map m tp). ID s \<noteq> i" and "\<forall>s. OpSubscribe s \<in> set ops \<longrightarrow> ID s \<noteq> i"
  shows "\<forall>s \<in> set (index_map (foldl list_op m ops) tp). ID s \<noteq> i"
  using assms
proof (induction ops arbitrary: m)
  case Nil
  then show ?case by simp
next
  case (Cons op ops)
  have "\<forall>s \<in> set (index_map (list_op m op) tp). ID s \<noteq> i"
  proof
    fix s assume "s \<in> set (index_map (list_op m op) tp)"
    with list_op_index[of m op tp]
    have "s \<in> set (index_map m tp) \<or> op = OpSubscribe s" by (cases op) auto
    with Cons.prems show "ID s \<noteq> i" by auto
  qed
  with Cons.IH[of "list_op m op"] Cons.prems(2) show ?case by simp
qed

lemma unsubscribe_removes_id:
  "\<forall>s \<in> set (index_map (list_op m (OpUnsubscribe sub)) (Topic sub)). ID s \<noteq> ID sub"
proof (cases "m (Topic sub)")
  case None
  show ?thesis unfolding list_unsubscribe_absent[where m = m and sub = sub, OF None]
    using None by (simp add: index_map_def)
next
  case (Some xs)
  show ?thesis unfolding list_unsubscribe_present[where m = m and sub = sub, OF Some]
    by (auto simp: index_map_def)
qed

text \<open>
  Without the copy the loop would read the registry's own backing array: after
  \<open>Subscribe A; Subscribe B\<close> the slice header of the topic reads \<open>[A, B]\<close>; an
  \<open>Unsubscribe A\<close> compacts the array in place, and the same header then reads \<open>[B, zero]\<close>.
\<close>

lemma uncopied_slice_sees_unsubscribe:
  "elems (hstore (apply_ops w_grow w_zero hnew [OpSubscribe w_A, OpSubscribe w_B]))
      (hindex (hsubs (apply_ops w_grow w_zero hnew [OpSubscribe w_A, OpSubscribe w_B])) ''t'')
     = [w_A, w_B]
   \<and> elems (hstore (apply_ops w_grow w_zero hnew [OpSubscribe w_A, OpSubscribe w_B, OpUnsubscribe w_A]))
      (hindex (hsubs (apply_ops w_grow w_zero hnew [OpSubscribe w_A, OpSubscribe w_B])) ''t'')
     = [w_B, w_zero]"
  by (simp add: apply_ops_def hsubscribe_def hunsubscribe_def append1_def delete_func_def hindex_def
      elems_def nil_slice_def hnew_def w_grow_def w_A_def w_B_def w_zero_def Let_def)

section \<open>Shutdown racing with the other goroutines\<close>

text \<open>
  A \<open>Stop\<close> call standing at \<open>wg.Wait\<close> while a handler is in flight stays there, unable
  to move, for as long as no handler ends, whatever else the other goroutines do.
\<close>

lemma unsubscribe_wg: "wg (unsubscribe e sub) = wg e"
  by (simp add: unsubscribe_def Let_def split: option.splits)

lemma wait_step_kept:
  assumes "step a p = Some q" and "\<not> handler_ends a"
    and "stream p = Some e" and "stoppers p c = AtWait" and "wg e \<noteq> 0"
  shows "\<exists>e'. stream q = Some e' \<and> stoppers q c = AtWait \<and> wg e' \<noteq> 0"
  using assms(1)
proof (cases rule: step_cases)
  case (stop c')
  from stop(2) assms(3-5) show ?thesis
    by (cases rule: stop_step_cases) (auto split: if_splits)
qed (use assms(2-5) in \<open>auto simp: unsubscribe_wg\<close>)

lemma wait_kept:
  assumes "exec as p = Some q" and "\<forall>a \<in> set as. \<not> handler_ends a"
    and "stream p = Some e" and "stoppers p c = AtWait" and "wg e \<noteq> 0"
  shows "stoppers q c = AtWait \<and> step (StopStep c) q = None"
  using assms
proof (induction as arbitrary: p e)
  case Nil
  then show ?case by (simp add: step_def stop_step_def stop_wait_def)
next
  case (Cons a as)
  from Cons.prems(1) obtain p1 where s: "step a p = Some p1" and x: "exec as p1 = Some q"
    by (auto split: option.splits)
  from Cons.prems(2) have "\<not> handler_ends a" by simp
  from wait_step_kept[OF s this Cons.prems(3-5)]
  obtain e1 where "stream p1 = Some e1" "stoppers p1 c = AtWait" "wg e1 \<noteq> 0" by blast
  with x Cons.prems(2) show ?case by (intro Cons.IH[of p1 e1]) simp_all
qed


text \<open>
  In every reachable state the queue has capacity 128 and holds at most 128 events, and an
  \<open>Emit\<close> on the full queue that no other goroutine interleaves with drops its event:
  it returns normally and changes nothing but the log.
\<close>

lemma full_queue_drops:
  assumes "exec sched init_proc = Some p" and "crashed p = None"
  shows "\<exists>e. stream p = Some e \<and> cap (eventch e) = 128 \<and> length (buf (eventch e)) \<le> 128
           \<and> (length (buf (eventch e)) = 128 \<longrightarrow>
                Emit p tp v = Inr (p\<lparr>slog := slog p @ [drop_line e tp]\<rparr>)
              \<and> exec (CallEmit tp v # (if closed e then [] else [EmitSelect (length (sending p))])) p
                  = Some (p\<lparr>slog := slog p @ [drop_line e tp]\<rparr>))"
proof -
  from assms(1) have i: "inv p" by (rule inv_reachable)
  then obtain e where e: "stream p = Some e" "cap (eventch e) = 128" "length (buf (eventch e)) \<le> 128"
    by (auto simp: inv_def split: option.splits)
  with i have c: "is_closed (eventch e) \<longrightarrow> closed e" using inv_closed_chan by blast
  have 3: "Emit p tp v = Inr (p\<lparr>slog := slog p @ [drop_line e tp]\<rparr>)"
    if "length (buf (eventch e)) = 128"
    using that e c by (auto simp: Emit_def emit_def emit_select_def chan_send_def drop_line_def)
  have 4: "exec (CallEmit tp v # (if closed e then [] else [EmitSelect (length (sending p))])) p
              = Some (p\<lparr>slog := slog p @ [drop_line e tp]\<rparr>)"
    if "length (buf (eventch e)) = 128"
    using that e c assms(2)
    by (auto simp: step_def call_emit_def emit_select_step_def emit_select_def chan_send_def
        drop_line_def drop_nth_def)
  show ?thesis using e 3 4 by blast
qed

text \<open>The \<open>select\<close> of an \<open>emit\<close> that finds the queue closed panics.\<close>

lemma select_after_close_panics:
  assumes "stream p = Some e" and "crashed p = None" and "is_closed (eventch e)"
    and "i < length (sending p)"
  shows "step (EmitSelect i) p
           = Some (p\<lparr>sending := drop_nth i (sending p), crashed := Some SendOnClosed\<rparr>)"
  using assms by (simp add: step_def emit_select_step_def emit_select_def chan_send_def die_def)

text \<open>
  \<open>Subscribe\<close> does not look at the closed flag: after a \<open>Stop\<close> call has returned it
  still returns a Subscription with the next id (new as long as fewer than \<open>2^64 - 1\<close> have
  been issued) and appends it to the topic's entry; an \<open>Emit\<close> after it is dropped.
\<close>

lemma subscribe_after_stop_succeeds:
  assumes "exec sched init_proc = Some p" and "stoppers p c = Returned"
  shows "\<exists>e sub p'. stream p = Some e \<and> closed e \<and> stopOnce e = Finished
           \<and> Subscribe p now tp h = Inr (sub, p')
           \<and> sub = \<lparr>ID = subIDCounter p + 1, Topic = tp, CreatedAt = now, Fn = h\<rparr>
           \<and> (length (issued p) < 2 ^ 64 - 1 \<longrightarrow> ID sub \<notin> ID ` set (issued p))
           \<and> registry p' = (registry p)(tp \<mapsto> index_map (registry p) tp @ [sub])
           \<and> issued p' = issued p @ [sub]
           \<and> (crashed p = None \<longrightarrow> step (CallSubscribe now tp h) p = Some p')
           \<and> Emit p' tp v
               = Inr (p'\<lparr>slog := slog p' @ [(LevelDebug, ''dropping event because stream is closed'', tp)]\<rparr>)"
proof -
  from assms(1) have i: "inv p" and d: "ids_inv p"
    by (rule inv_reachable, rule ids_inv_reachable)
  from inv_stream[OF i] obtain e where e: "stream p = Some e" ..
  from inv_returned[OF i e assms(2)] have f: "stopOnce e = Finished" .
  with i e have c: "closed e" by (simp add: inv_def flags_def)
  define sub where "sub = \<lparr>ID = subIDCounter p + 1, Topic = tp, CreatedAt = now, Fn = h\<rparr>"
  define p' where "p' = p\<lparr>stream := Some (e\<lparr>subs := (subs e)(tp \<mapsto> index_map (subs e) tp @ [sub])\<rparr>),
      subIDCounter := subIDCounter p + 1, issued := issued p @ [sub]\<rparr>"
  have 1: "Subscribe p now tp h = Inr (sub, p')"
    using e by (simp add: Subscribe_def subscribe_def Let_def sub_def p'_def)
  have "step (CallSubscribe now tp h) (p\<lparr>crashed := None\<rparr>) = Some (p'\<lparr>crashed := None\<rparr>)"
    using e by (simp add: step_def Subscribe_def subscribe_def Let_def sub_def p'_def)
  moreover from d have "ids_inv (p\<lparr>crashed := None\<rparr>)" by (simp add: ids_inv_def)
  ultimately have "ids_inv (p'\<lparr>crashed := None\<rparr>)" by (rule ids_inv_step[rotated])
  then have d': "ids_inv p'" by (simp add: ids_inv_def)
  have 2: "length (issued p) < 2 ^ 64 - 1 \<longrightarrow> ID sub \<notin> ID ` set (issued p)"
  proof
    assume b: "length (issued p) < 2 ^ 64 - 1"
    have "length (issued p') = Suc (length (issued p))" by (simp add: p'_def)
    with b have "length (issued p') < 2 ^ 64" by linarith
    with d' have "sorted_wrt (<) (map ID (issued p'))" by (rule issued_ids_sorted)
    then have "distinct (map ID (issued p'))" by (simp only: strict_sorted_iff)
    then show "ID sub \<notin> ID ` set (issued p)" by (simp add: p'_def)
  qed
  have 3: "registry p' = (registry p)(tp \<mapsto> index_map (registry p) tp @ [sub])"
    "issued p' = issued p @ [sub]"
    using e by (simp_all add: registry_def p'_def)
  have 4: "crashed p = None \<longrightarrow> step (CallSubscribe now tp h) p = Some p'"
    using 1 by (simp add: step_def)
  have 5: "Emit p' tp v
      = Inr (p'\<lparr>slog := slog p' @ [(LevelDebug, ''dropping event because stream is closed'', tp)]\<rparr>)"
    using c by (simp add: Emit_def emit_def p'_def)
  have 7: "sub = \<lparr>ID = subIDCounter p + 1, Topic = tp, CreatedAt = now, Fn = h\<rparr>"
    by (simp add: sub_def)
  from e c f 1 7 2 3 4 5 show ?thesis by (intro exI[of _ e] exI[of _ sub] exI[of _ p'] conjI)
qed

section \<open>The claims\<close>

text \<open>
  C7. After every sequence of subscribe and unsubscribe operations (and of any other steps
  of the process), the registry map has a key for a topic exactly when indexing the map at
  that topic gives a non-empty handler list. A \<open>Subscribe\<close> sets the topic's entry to the
  old list (empty when there was no entry) with the new Subscription appended; an
  \<open>Unsubscribe\<close> filters the ids equal to the given one out of the topic's list, keeps the
  entry exactly when a Subscription with another id remains, and leaves the other topics
  alone.
\<close>

theorem registry_key_iff_nonempty:
  assumes "exec sched init_proc = Some p"
  shows "(tp \<in> dom (registry p)) = (index_map (registry p) tp \<noteq> [])
       \<and> (\<forall>p'. step (CallSubscribe now tp h) p = Some p' \<longrightarrow>
              registry p' = (registry p)(tp \<mapsto> index_map (registry p) tp
                 @ [\<lparr>ID = subIDCounter p + 1, Topic = tp, CreatedAt = now, Fn = h\<rparr>]))
       \<and> (\<forall>p'. step (CallUnsubscribe sub) p = Some p' \<longrightarrow>
              index_map (registry p') (Topic sub)
                = filter (\<lambda>s. ID s \<noteq> ID sub) (index_map (registry p) (Topic sub))
            \<and> (Topic sub \<in> dom (registry p'))
                = (\<exists>s \<in> set (index_map (registry p) (Topic sub)). ID s \<noteq> ID sub)
            \<and> (\<forall>t. t \<noteq> Topic sub \<longrightarrow> registry p' t = registry p t))"
proof -
  from assms have "no_empty (registry p)"
    by (rule exec_invariant[where I = "\<lambda>p. no_empty (registry p)"]) (rule no_empty_init, rule no_empty_step)
  then have 1: "(tp \<in> dom (registry p)) = (index_map (registry p) tp \<noteq> [])"
    by (auto simp: no_empty_def index_map_def dom_def split: option.splits)
  from inv_stream[OF inv_reachable[OF assms]] obtain e where e: "stream p = Some e" ..
  have 2: "registry p' = (registry p)(tp \<mapsto> index_map (registry p) tp
      @ [\<lparr>ID = subIDCounter p + 1, Topic = tp, CreatedAt = now, Fn = h\<rparr>])"
    if "step (CallSubscribe now tp h) p = Some p'" for p'
    using that e
    by (auto simp: step_def Subscribe_def subscribe_def registry_def Let_def split: if_splits)
  have 3: "index_map (registry p') (Topic sub)
        = filter (\<lambda>s. ID s \<noteq> ID sub) (index_map (registry p) (Topic sub))
      \<and> (Topic sub \<in> dom (registry p'))
        = (\<exists>s \<in> set (index_map (registry p) (Topic sub)). ID s \<noteq> ID sub)
      \<and> (\<forall>t. t \<noteq> Topic sub \<longrightarrow> registry p' t = registry p t)"
    if "step (CallUnsubscribe sub) p = Some p'" for p'
  proof -
    from that e have r: "registry p' = subs (unsubscribe e sub)"
      by (auto simp: step_def Unsubscribe_def lift_panic_def registry_def split: if_splits)
    show ?thesis
    proof (cases "subs e (Topic sub)")
      case None
      with e show ?thesis unfolding r
        by (simp add: unsubscribe_def registry_def index_map_def dom_def)
    next
      case (Some xs)
      with e show ?thesis unfolding r
        by (auto simp: unsubscribe_def registry_def index_map_def DeleteFunc_def Let_def
            filter_empty_conv dom_def)
    qed
  qed
  from 1 2 3 show ?thesis by blast
qed

theorem registry_key_iff_nonempty_witness:
  "exec [CallSubscribe 10 ''a'' (1::nat), CallSubscribe 11 ''a'' 2,
         CallUnsubscribe \<lparr>ID = 1, Topic = ''a'', CreatedAt = 10, Fn = 1\<rparr>,
         CallUnsubscribe \<lparr>ID = 2, Topic = ''a'', CreatedAt = 11, Fn = 2\<rparr>,
         CallSubscribe 12 ''b'' 3] (init_proc :: (nat, unit) proc)
     = Some (init_proc\<lparr>stream := Some (newStream\<lparr>subs :=
                 [''b'' \<mapsto> [\<lparr>ID = 3, Topic = ''b'', CreatedAt = 12, Fn = 3\<rparr>]]\<rparr>),
               subIDCounter := 3,
               issued := [\<lparr>ID = 1, Topic = ''a'', CreatedAt = 10, Fn = 1\<rparr>,
                          \<lparr>ID = 2, Topic = ''a'', CreatedAt = 11, Fn = 2\<rparr>,
                          \<lparr>ID = 3, Topic = ''b'', CreatedAt = 12, Fn = 3\<rparr>]\<rparr>)
   \<and> (''a'' \<in> dom (registry (init_proc\<lparr>stream := Some (newStream\<lparr>subs :=
                 [''b'' \<mapsto> [\<lparr>ID = 3, Topic = ''b'', CreatedAt = 12, Fn = (3::nat)\<rparr>]]\<rparr>)\<rparr> :: (nat, unit) proc)))
      = (index_map (registry (init_proc\<lparr>stream := Some (newStream\<lparr>subs :=
                 [''b'' \<mapsto> [\<lparr>ID = 3, Topic = ''b'', CreatedAt = 12, Fn = (3::nat)\<rparr>]]\<rparr>)\<rparr> :: (nat, unit) proc)) ''a'' \<noteq> [])"
proof -
  have e: "exec [CallSubscribe 10 ''a'' (1::nat), CallSubscribe 11 ''a'' 2,
         CallUnsubscribe \<lparr>ID = 1, Topic = ''a'', CreatedAt = 10, Fn = 1\<rparr>,
         CallUnsubscribe \<lparr>ID = 2, Topic = ''a'', CreatedAt = 11, Fn = 2\<rparr>,
         CallSubscribe 12 ''b'' 3] (init_proc :: (nat, unit) proc)
     = Some (init_proc\<lparr>stream := Some (newStream\<lparr>subs :=
                 [''b'' \<mapsto> [\<lparr>ID = 3, Topic = ''b'', CreatedAt = 12, Fn = 3\<rparr>]]\<rparr>),
               subIDCounter := 3,
               issued := [\<lparr>ID = 1, Topic = ''a'', CreatedAt = 10, Fn = 1\<rparr>,
                          \<lparr>ID = 2, Topic = ''a'', CreatedAt = 11, Fn = 2\<rparr>,
                          \<lparr>ID = 3, Topic = ''b'', CreatedAt = 12, Fn = 3\<rparr>]\<rparr>)"
    by (simp add: step_def Subscribe_def Unsubscribe_def subscribe_def unsubscribe_def lift_panic_def
        init_proc_def init_def boot_def newStream_def index_map_def DeleteFunc_def Let_def fun_upd_twist)
  from registry_key_iff_nonempty[OF e, where tp = "''a''"]
  have "(''a'' \<in> dom (registry (init_proc\<lparr>stream := Some (newStream\<lparr>subs :=
                 [''b'' \<mapsto> [\<lparr>ID = 3, Topic = ''b'', CreatedAt = 12, Fn = (3::nat)\<rparr>]]\<rparr>),
               subIDCounter := 3,
               issued := [\<lparr>ID = 1, Topic = ''a'', CreatedAt = 10, Fn = 1\<rparr>,
                          \<lparr>ID = 2, Topic = ''a'', CreatedAt = 11, Fn = 2\<rparr>,
                          \<lparr>ID = 3, Topic = ''b'', CreatedAt = 12, Fn = 3\<rparr>]\<rparr> :: (nat, unit) proc)))
      = (index_map (registry (init_proc\<lparr>stream := Some (newStream\<lparr>subs :=
                 [''b'' \<mapsto> [\<lparr>ID = 3, Topic = ''b'', CreatedAt = 12, Fn = (3::nat)\<rparr>]]\<rparr>),
               subIDCounter := 3,
               issued := [\<lparr>ID = 1, Topic = ''a'', CreatedAt = 10, Fn = 1\<rparr>,
                          \<lparr>ID = 2, Topic = ''a'', CreatedAt = 11, Fn = 2\<rparr>,
                          \<lparr>ID = 3, Topic = ''b'', CreatedAt = 12, Fn = 3\<rparr>]\<rparr> :: (nat, unit) proc)) ''a'' \<noteq> [])"
    by blast
  with e show ?thesis by (simp add: registry_def)
qed

text \<open>
  C4. The queue is filled by 128 \<open>Emit\<close> calls. A further \<open>Emit\<close> that nothing
  interleaves with drops its event and writes the warning. But \<open>emit\<close> loads \<open>closed\<close>
  and sends in two steps: when \<open>Stop\<close> runs \<open>closed.Store\<close>, \<open>cancel\<close> and
  \<open>close(eventch)\<close> between the two, the \<open>select\<close> finds the queue closed and its send
  panics. The process dies with "send on closed channel" inside the producer's \<open>Emit\<close>;
  no line is logged and the 128 events stay in the queue.
\<close>

theorem emit_racing_with_stop_panics:
  "exec (emit_actions ''t'' 7 128) init_proc = Some full_proc
   \<and> exec [CallEmit ''t'' 8, EmitSelect 0] full_proc
       = Some (full_proc\<lparr>slog := [(LevelWarn, ''event channel full; dropping event'', ''t'')]\<rparr>)
   \<and> map_option (\<lambda>q. (crashed q, slog q, sending q, stoppers q 0,
                       map_option (\<lambda>e. (length (buf (eventch e)), is_closed (eventch e))) (stream q)))
        (exec [CallEmit ''t'' 8, StopStep 0, StopStep 0, StopStep 0, StopStep 0, EmitSelect 0] full_proc)
      = Some (Some SendOnClosed, [], [], AtWait, Some (128, True))"
proof -
  have r: "exec (emit_actions ''t'' 7 128) init_proc = Some full_proc"
    using fill_queue[of "init_proc :: (nat, nat) proc" newStream 128 "''t''" 7]
    by (simp add: full_proc_def init_proc_def init_def boot_def newStream_def make_chan_def)
  have a: "exec [CallEmit ''t'' 8, EmitSelect 0] full_proc
       = Some (full_proc\<lparr>slog := [(LevelWarn, ''event channel full; dropping event'', ''t'')]\<rparr>)"
    by (simp add: full_proc_def eval_defs)
  have b: "map_option (\<lambda>q. (crashed q, slog q, sending q, stoppers q 0,
                       map_option (\<lambda>e. (length (buf (eventch e)), is_closed (eventch e))) (stream q)))
        (exec [CallEmit ''t'' 8, StopStep 0, StopStep 0, StopStep 0, StopStep 0, EmitSelect 0] full_proc)
      = Some (Some SendOnClosed, [], [], AtWait, Some (128, True))"
    by (simp add: full_proc_def eval_defs die_def)
  from r a b show ?thesis by (simp del: exec.simps)
qed

text \<open>
  C9. With the global \<open>stream\<close> nil, \<open>Emit\<close> returns normally (no panic): it writes one
  warning and changes nothing else of the process.
\<close>

theorem Emit_nil_stream:
  "stream p = None \<Longrightarrow>
     Emit p tp v
       = Inr (p\<lparr>slog := slog p @ [(LevelWarn, ''event stream not initialized; dropping event'', tp)]\<rparr>)"
  by (simp add: Emit_def)

theorem Emit_nil_stream_witness:
  "stream (boot :: (nat, nat) proc) = None \<and>
   Emit (boot :: (nat, nat) proc) ''user.created'' 42 =
     Inr (boot\<lparr>slog := [(LevelWarn, ''event stream not initialized; dropping event'', ''user.created'')]\<rparr>)"
proof -
  have h: "stream (boot :: (nat, nat) proc) = None" by (simp add: boot_def)
  show ?thesis using h Emit_nil_stream[OF h, of "''user.created''" 42] by (simp add: boot_def)
qed

text \<open>
  C8 (amended). \<open>Subscribe\<close> on the initialised process never fails; the id it returns is
  the counter plus one. While fewer than \<open>2^64 - 1\<close> Subscriptions have been issued, that
  id is strictly greater than the id of every Subscription issued before (on any topic), and
  the ids issued so far are pairwise distinct.
\<close>

theorem subscribe_ids_increase:
  assumes "exec sched init_proc = Some p"
  shows "\<exists>sub p'. Subscribe p now tp h = Inr (sub, p')
           \<and> ID sub = subIDCounter p + 1
           \<and> issued p' = issued p @ [sub]
           \<and> (length (issued p) < 2 ^ 64 - 1 \<longrightarrow>
                (\<forall>s \<in> set (issued p). ID s < ID sub) \<and> distinct (map ID (issued p')))"
proof -
  from assms(1) have i: "inv p" and d: "ids_inv p"
    by (rule inv_reachable, rule ids_inv_reachable)
  from i obtain e where e: "stream p = Some e" by (auto simp: inv_def split: option.splits)
  define sub where "sub = \<lparr>ID = subIDCounter p + 1, Topic = tp, CreatedAt = now, Fn = h\<rparr>"
  define p' where "p' = p\<lparr>stream := Some (e\<lparr>subs := (subs e)(tp \<mapsto> index_map (subs e) tp @ [sub])\<rparr>),
      subIDCounter := subIDCounter p + 1, issued := issued p @ [sub]\<rparr>"
  have 1: "Subscribe p now tp h = Inr (sub, p')"
    using e by (simp add: Subscribe_def subscribe_def Let_def sub_def p'_def)
  have "step (CallSubscribe now tp h) (p\<lparr>crashed := None\<rparr>) = Some (p'\<lparr>crashed := None\<rparr>)"
    using e by (simp add: step_def Subscribe_def subscribe_def Let_def sub_def p'_def)
  moreover from d have "ids_inv (p\<lparr>crashed := None\<rparr>)" by (simp add: ids_inv_def)
  ultimately have "ids_inv (p'\<lparr>crashed := None\<rparr>)" by (rule ids_inv_step[rotated])
  then have d': "ids_inv p'" by (simp add: ids_inv_def)
  have 5: "ID sub = subIDCounter p + 1" "issued p' = issued p @ [sub]"
    by (simp_all add: sub_def p'_def)
  have 2: "(\<forall>s \<in> set (issued p). ID s < ID sub) \<and> distinct (map ID (issued p'))"
    if b: "length (issued p) < 2 ^ 64 - 1"
  proof -
    have "length (issued p') = Suc (length (issued p))" by (simp add: p'_def)
    with b have "length (issued p') < 2 ^ 64" by linarith
    with d' have 3: "sorted_wrt (<) (map ID (issued p'))" by (rule issued_ids_sorted)
    then have 4: "distinct (map ID (issued p'))" by (simp only: strict_sorted_iff)
    from 3 5(2) have "\<forall>s \<in> set (issued p). ID s < ID sub" by (simp add: sorted_wrt_append)
    with 4 show ?thesis by simp
  qed
  show ?thesis using 1 2 5 by blast
qed

text \<open>
  The counter is a \<open>uint64\<close>: the subscribe call number \<open>2^64\<close> gets the id 0, which is
  not greater than the first id issued, 1.
\<close>

theorem subscribe_ids_wrap_counterexample:
  "exec (replicate max_uint64 (CallSubscribe 0 ''t'' ())) init_proc = Some wrapped_proc
   \<and> map_sum id (ID \<circ> fst) (Subscribe wrapped_proc 0 ''t'' ()) = Inr 0
   \<and> ID (hd (issued wrapped_proc)) = 1"
proof -
  have "stream (init_proc :: (unit, unit) proc) \<noteq> None" "crashed (init_proc :: (unit, unit) proc) = None"
    by (simp_all add: init_proc_def init_def boot_def)
  from exec_subscribes[OF this, of max_uint64 0 "''t''" "()"]
  obtain q :: "(unit, unit) proc"
    where q: "exec (replicate max_uint64 (CallSubscribe 0 ''t'' ())) init_proc = Some q"
    "length (issued q) = length (issued (init_proc :: (unit, unit) proc)) + max_uint64" "stream q \<noteq> None"
    by auto
  then have w: "wrapped_proc = q" by (simp add: wrapped_proc_def)
  from q(2) have len: "length (issued q) = max_uint64"
    by (simp add: init_proc_def init_def boot_def)
  from q(1) have d: "ids_inv q" by (rule ids_inv_reachable)
  with len have c: "subIDCounter q = of_nat max_uint64" by (simp add: ids_inv_def)
  have "(of_nat max_uint64 :: uint64) = of_nat (2 ^ 64) - 1"
    unfolding max_uint64_def by (subst of_nat_diff) simp_all
  then have "(of_nat max_uint64 :: uint64) + 1 = 0" by simp
  with c q(3) have 1: "map_sum id (ID \<circ> fst) (Subscribe q 0 ''t'' ()) = Inr 0"
    by (auto simp: Subscribe_def subscribe_def Let_def)
  have pos: "0 < length (issued q)" unfolding len by (simp add: max_uint64_def)
  then have ne: "issued q \<noteq> []" by auto
  from d have "map ID (issued q) ! 0 = map (\<lambda>k. of_nat (Suc k)) [0..<length (issued q)] ! 0"
    by (simp add: ids_inv_def)
  with pos ne have 2: "ID (hd (issued q)) = 1" by (simp add: hd_conv_nth)
  show ?thesis unfolding w using q(1) 1 2 by simp
qed

theorem subscribe_ids_increase_witness:
  "exec [CallSubscribe 10 ''a'' 1, CallSubscribe 11 ''b'' 2] init_proc = Some three_subs
   \<and> length (issued three_subs) < 2 ^ 64 - 1
   \<and> map_sum id (ID \<circ> fst) (Subscribe three_subs 12 ''a'' 3) = Inr 3
   \<and> map ID (issued three_subs) = [1, 2]"
proof -
  have r: "exec [CallSubscribe 10 ''a'' 1, CallSubscribe 11 ''b'' 2] init_proc = Some three_subs"
    by (simp add: three_subs_def step_def Subscribe_def subscribe_def index_map_def Let_def
        init_proc_def init_def boot_def newStream_def)
  have l: "length (issued three_subs) < 2 ^ 64 - 1"
    by (simp add: three_subs_def)
  from subscribe_ids_increase[OF r, of 12 "''a''" 3] r l show ?thesis
    by (auto simp: three_subs_def)
qed




text \<open>
  C1 (amended). When a running handler returns, the deferred \<open>wg.Done\<close> decrements the
  counter, the invocation is gone, and nothing else changes. When it panics, the deferred
  \<open>wg.Done\<close> still decrements the counter, but the panic is not recovered and nothing is
  logged: the process dies with the handler's panic, and no goroutine takes a step after.
\<close>

theorem handler_end_effects:
  assumes "exec sched init_proc = Some p" and "crashed p = None" and "i < length (invocations p)"
  shows "\<exists>e. stream p = Some e \<and> 0 < wg e
           \<and> step (HandlerReturn i) p
               = Some (p\<lparr>stream := Some (e\<lparr>wg := wg e - 1\<rparr>),
                         invocations := drop_nth i (invocations p)\<rparr>)
           \<and> step (HandlerPanic i) p
               = Some (p\<lparr>stream := Some (e\<lparr>wg := wg e - 1\<rparr>),
                         invocations := drop_nth i (invocations p),
                         crashed := Some HandlerFault\<rparr>)
           \<and> (\<forall>a. step a (p\<lparr>stream := Some (e\<lparr>wg := wg e - 1\<rparr>),
                              invocations := drop_nth i (invocations p),
                              crashed := Some HandlerFault\<rparr>) = None)"
proof -
  from assms(1) have i: "inv p" by (rule inv_reachable)
  from inv_stream[OF i] obtain e where e: "stream p = Some e" ..
  with i have w: "wg e = length (invocations p)" by (simp add: inv_def)
  with assms(3) have pos: "0 < wg e" by (cases "invocations p") auto
  have 1: "step (HandlerReturn i) p
      = Some (p\<lparr>stream := Some (e\<lparr>wg := wg e - 1\<rparr>), invocations := drop_nth i (invocations p)\<rparr>)"
    using e assms(2,3) pos by (simp add: step_def handler_end_def wg_Done_def)
  have 2: "step (HandlerPanic i) p
      = Some (p\<lparr>stream := Some (e\<lparr>wg := wg e - 1\<rparr>), invocations := drop_nth i (invocations p),
                 crashed := Some HandlerFault\<rparr>)"
    using e assms(2,3) pos by (simp add: step_def handler_end_def wg_Done_def die_def)
  have 3: "\<forall>a. step a (p\<lparr>stream := Some (e\<lparr>wg := wg e - 1\<rparr>),
      invocations := drop_nth i (invocations p), crashed := Some HandlerFault\<rparr>) = None"
    by (simp add: step_def)
  show ?thesis using e pos 1 2 3 by blast
qed

theorem handler_end_effects_witness:
  "exec [CallSubscribe 5 ''t'' 1, CallEmit ''t'' 9, EmitSelect 0, LoopRecv, LoopSnapshot, LoopSpawn]
     init_proc = Some one_running
   \<and> crashed one_running = None \<and> 0 < length (invocations one_running)
   \<and> step (HandlerReturn 0) one_running
       = Some (init_proc\<lparr>stream := Some (newStream\<lparr>subs := [''t'' \<mapsto> [\<lparr>ID = 1, Topic = ''t'', CreatedAt = 5, Fn = 1\<rparr>]]\<rparr>),
               subIDCounter := 1,
               issued := [\<lparr>ID = 1, Topic = ''t'', CreatedAt = 5, Fn = 1\<rparr>]\<rparr>)
   \<and> map_option crashed (step (HandlerPanic 0) one_running) = Some (Some HandlerFault)"
proof -
  have l: "crashed one_running = None" "0 < length (invocations one_running)"
    by (simp_all add: one_running_def init_proc_def init_def boot_def)
  from handler_end_effects[OF one_running_reached l] l one_running_reached show ?thesis
    by (auto simp: one_running_def init_proc_def init_def boot_def newStream_def make_chan_def drop_nth_def)
qed

text \<open>
  One subscriber, one event, the handler panics: the process is dead, the log is empty, and
  neither a producer's \<open>Emit\<close> nor the dispatch loop can take a step.
\<close>

theorem handler_fault_kills_process_counterexample:
  "map_option (\<lambda>q. (crashed q, slog q)) (exec faulty_sched init_proc) = Some (Some HandlerFault, [])
   \<and> exec (faulty_sched @ [CallEmit ''t'' 10]) init_proc = None
   \<and> exec (faulty_sched @ [LoopRecv]) init_proc = None"
proof -
  have f: "faulty_sched = [CallSubscribe 5 ''t'' 1, CallEmit ''t'' 9, EmitSelect 0, LoopRecv, LoopSnapshot,
      LoopSpawn] @ [HandlerPanic 0]"
    by (simp add: faulty_sched_def)
  have "exec faulty_sched init_proc = exec [HandlerPanic 0] one_running"
    unfolding f exec_append one_running_reached by simp
  also have "\<dots> = Some (one_running\<lparr>stream := Some (newStream\<lparr>subs := [''t'' \<mapsto> [\<lparr>ID = 1, Topic = ''t'', CreatedAt = 5, Fn = 1\<rparr>]]\<rparr>),
       invocations := [], crashed := Some HandlerFault\<rparr>)"
    by (simp add: one_running_def step_def handler_end_def wg_Done_def die_def drop_nth_def
        init_proc_def init_def boot_def newStream_def)
  finally have e: "exec faulty_sched init_proc = Some (one_running\<lparr>stream := Some (newStream\<lparr>subs := [''t'' \<mapsto> [\<lparr>ID = 1, Topic = ''t'', CreatedAt = 5, Fn = 1\<rparr>]]\<rparr>),
       invocations := [], crashed := Some HandlerFault\<rparr>)" .
  show ?thesis unfolding exec_append e
    by (simp add: step_def one_running_def init_proc_def init_def boot_def)
qed

text \<open>
  C2. One subscriber and one event; the dispatch loop has received the event and taken its
  snapshot when \<open>Stop\<close> is called. \<open>Stop\<close> runs all its statements and returns (the
  WaitGroup counter is zero), and then the loop starts the handler: after \<open>Stop\<close> has
  returned the dispatch loop has not exited and a handler invocation is running.
\<close>

theorem stop_returns_before_dispatch_ends:
  "map_option (\<lambda>q. (stoppers q 0, loop q, invocations q, map_option wg (stream q), crashed q))
     (exec racing_sched init_proc)
   = Some (Returned, AtSelect, [(\<lparr>ID = 1, Topic = ''t'', CreatedAt = 5, Fn = 1\<rparr>, 9)], Some 1, None)"
  by (simp add: racing_sched_def eval_defs)

text \<open>
  C10. An event is queued and \<open>Stop\<close> runs to its return before the dispatch loop is
  scheduled: the registry is empty and no handler runs. \<open>Subscribe\<close> then succeeds on the
  closed stream: it returns the Subscription with id 1, the first ever issued, and the
  registry has an entry for the topic again. The dispatch loop now receives the queued event,
  snapshots the registry and starts the handler subscribed after \<open>Stop\<close>: a dispatch after
  \<open>Stop\<close> has completed.
\<close>

theorem dispatch_after_stop_returned:
  "map_option (\<lambda>q. (stoppers q 0, loop q, dom (registry q), invocations q, subIDCounter q))
     (exec stopped_sched init_proc) = Some (Returned, AtSelect, {}, [], 0)
   \<and> map_option (\<lambda>q. (registry q ''t'', subIDCounter q, map_option closed (stream q)))
       (exec (stopped_sched @ [CallSubscribe 5 ''t'' 1]) init_proc)
       = Some (Some [\<lparr>ID = 1, Topic = ''t'', CreatedAt = 5, Fn = 1\<rparr>], 1, Some True)
   \<and> map_option (\<lambda>q. (stoppers q 0, invocations q, crashed q))
       (exec (stopped_sched @ late_sched) init_proc)
       = Some (Returned, [(\<lparr>ID = 1, Topic = ''t'', CreatedAt = 5, Fn = 1\<rparr>, 9)], None)"
  by (simp add: stopped_sched_def late_sched_def registry_def eval_defs)



text \<open>
  C5. The handlers the dispatch loop invokes for an event are read, one per round of its
  \<open>range\<close> loop, from the backing array of its snapshot. Whatever subscribe, unsubscribe
  and clear operations ran before the snapshot, and whatever such operations other goroutines
  run between the rounds, the handlers read are exactly the topic's handler list as it was
  when the snapshot was taken (the list-level \<open>snapshot\<close> on the registry those earlier
  operations built). In particular a handler unsubscribed before the snapshot, and not
  subscribed again under the same id, is not among them.
\<close>

theorem snapshot_is_independent_copy:
  assumes "grows g"
    and "hsnapshot g z (apply_ops g z hnew before) tp = (handlers, R1)"
    and "length during = sl_len handlers"
  shows "range_reads g z R1 handlers 0 during
           = snapshot ((newStream :: ('h, unit) eventStream)\<lparr>subs := foldl list_op Map.empty before\<rparr>) tp
       \<and> (\<forall>ops1 sub ops2.
             before = ops1 @ OpUnsubscribe sub # ops2 \<and> Topic sub = tp
             \<and> (\<forall>s. OpSubscribe s \<in> set ops2 \<longrightarrow> ID s \<noteq> ID sub)
             \<longrightarrow> (\<forall>s \<in> set (range_reads g z R1 handlers 0 during). ID s \<noteq> ID sub))"
proof -
  let ?R = "apply_ops g z (hnew :: 'h hreg) before"
  let ?m = "foldl list_op Map.empty before :: string \<rightharpoonup> 'h Subscription list"
  from apply_ops_props[OF wf_hnew assms(1), where z = z and ops = before and a = 0]
  have wf: "wf_reg ?R" and ab: "abs_reg ?R = ?m" by (simp_all add: abs_hnew)
  note sp = hsnapshot_props[OF wf assms(1,2)]
  have reads: "range_reads g z R1 handlers 0 during = index_map ?m tp"
  proof (cases "sl_len handlers = 0")
    case True
    with assms(3) sp(3) show ?thesis by (simp add: ab elems_def)
  next
    case False
    with sp(5) have u: "unshared R1 (sl_ptr handlers)" by simp
    from range_reads_unshared[OF assms(1) sp(1) u, of 0 during z] sp(4) assms(3)
    have "range_reads g z R1 handlers 0 during
        = take (sl_len handlers) (arrays (hstore R1) (sl_ptr handlers))" by simp
    with sp(3) show ?thesis by (simp add: ab elems_def)
  qed
  have 1: "range_reads g z R1 handlers 0 during
      = snapshot ((newStream :: ('h, unit) eventStream)\<lparr>subs := ?m\<rparr>) tp"
    using reads by (simp add: snapshot_def)
  have 2: "\<forall>s \<in> set (range_reads g z R1 handlers 0 during). ID s \<noteq> ID sub"
    if "before = ops1 @ OpUnsubscribe sub # ops2" "Topic sub = tp"
      "\<forall>s. OpSubscribe s \<in> set ops2 \<longrightarrow> ID s \<noteq> ID sub" for ops1 sub ops2
  proof -
    have "?m = foldl list_op (list_op (foldl list_op Map.empty ops1) (OpUnsubscribe sub)) ops2"
      unfolding that(1) by simp
    moreover have "\<forall>s \<in> set (index_map (foldl list_op (list_op (foldl list_op Map.empty ops1)
        (OpUnsubscribe sub)) ops2) tp). ID s \<noteq> ID sub"
      using unsubscribe_removes_id[of "foldl list_op Map.empty ops1" sub] that(2,3)
      by (intro unsubscribed_stays_out) simp_all
    ultimately show ?thesis unfolding reads by simp
  qed
  from 1 2 show ?thesis by blast
qed

theorem snapshot_is_independent_copy_witness:
  "grows w_grow
   \<and> hsnapshot w_grow w_zero (apply_ops w_grow w_zero hnew [OpSubscribe w_A, OpSubscribe w_B, OpUnsubscribe w_A]) ''t''
       = (\<lparr>sl_ptr = 3, sl_len = 1, sl_cap = 1\<rparr>, w_snapshot_reg)
   \<and> range_reads w_grow w_zero w_snapshot_reg \<lparr>sl_ptr = 3, sl_len = 1, sl_cap = 1\<rparr> 0
        [[OpUnsubscribe w_B, OpSubscribe w_C]] = [w_B]
   \<and> arrays (hstore (apply_ops w_grow w_zero w_snapshot_reg [OpUnsubscribe w_B, OpSubscribe w_C])) 2
       = [w_zero, w_zero]"
proof -
  have g: "grows w_grow" by (simp add: grows_def w_grow_def)
  have s: "hsnapshot w_grow w_zero (apply_ops w_grow w_zero hnew [OpSubscribe w_A, OpSubscribe w_B, OpUnsubscribe w_A]) ''t''
       = (\<lparr>sl_ptr = 3, sl_len = 1, sl_cap = 1\<rparr>, w_snapshot_reg)"
    by (simp add: hsnapshot_def append_to_nil_def apply_ops_def hsubscribe_def hunsubscribe_def
        append1_def delete_func_def hindex_def elems_def nil_slice_def hnew_def w_snapshot_reg_def
        w_grow_def w_A_def w_B_def w_zero_def Let_def eval_nat_numeral)
  have l: "length [[OpUnsubscribe w_B, OpSubscribe w_C]] = sl_len \<lparr>sl_ptr = 3, sl_len = 1, sl_cap = 1\<rparr>"
    by simp
  have m: "snapshot ((newStream :: (nat, unit) eventStream)\<lparr>subs :=
      foldl list_op Map.empty [OpSubscribe w_A, OpSubscribe w_B, OpUnsubscribe w_A]\<rparr>) ''t'' = [w_B]"
    by (simp add: snapshot_def index_map_def unsubscribe_def DeleteFunc_def newStream_def
        w_A_def w_B_def Let_def)
  have a: "arrays (hstore (apply_ops w_grow w_zero w_snapshot_reg [OpUnsubscribe w_B, OpSubscribe w_C])) 2
       = [w_zero, w_zero]"
    by (simp add: apply_ops_def hsubscribe_def hunsubscribe_def append1_def delete_func_def hindex_def
        elems_def nil_slice_def w_snapshot_reg_def w_grow_def w_B_def w_C_def Let_def eval_nat_numeral)
  from snapshot_is_independent_copy[OF g s l] m g s a show ?thesis by simp
qed

end
